theory Spec2Isabelle
  imports Main
begin

section \<open>JavaScript values\<close>

text \<open>
  The runner is a JavaScript class (\<open>PlaywrightRunner\<close>). Its values are modelled by a
  datatype of JavaScript values. A number is \<open>NaN\<close>, an infinity or a finite integer
  (the claims only concern counts and the results of \<open>parseInt\<close>, which are integral);
  an object is the list of its own properties, a later binding of a key overriding an
  earlier one.
\<close>

datatype jsnum = NaN | PosInf | NegInf | Fin int

datatype jsval =
    JUndefined
  | JNull
  | JBool bool
  | JNum jsnum
  | JStr string
  | JArr "jsval list"
  | JObj "(string \<times> jsval) list"

type_synonym jsobj = "(string \<times> jsval) list"

text \<open>ToBoolean: what \<open>||\<close>, \<open>!\<close> and \<open>if\<close> test.\<close>

fun truthy :: "jsval \<Rightarrow> bool" where
  "truthy JUndefined = False"
| "truthy JNull = False"
| "truthy (JBool b) = b"
| "truthy (JNum NaN) = False"
| "truthy (JNum (Fin i)) = (i \<noteq> 0)"
| "truthy (JNum PosInf) = True"
| "truthy (JNum NegInf) = True"
| "truthy (JStr s) = (s \<noteq> [])"
| "truthy (JArr xs) = True"
| "truthy (JObj kvs) = True"

text \<open>\<open>a || b\<close>\<close>

definition js_or :: "jsval \<Rightarrow> jsval \<Rightarrow> jsval" where
  "js_or a b = (if truthy a then a else b)"

text \<open>\<open>a || b\<close> between two numbers.\<close>

definition num_or :: "jsnum \<Rightarrow> jsnum \<Rightarrow> jsnum" where
  "num_or a b = (if truthy (JNum a) then a else b)"

text \<open>Own-property lookup \<open>o[k]\<close> on the property list; the last binding wins.\<close>

fun own_prop :: "jsobj \<Rightarrow> string \<Rightarrow> jsval" where
  "own_prop [] k = JUndefined"
| "own_prop ((k', v) # kvs) k =
     (if k' = k \<and> k \<notin> set (map fst kvs) then v else own_prop kvs k)"

text \<open>
  Property read \<open>v.k\<close> for the keys the runner reads (\<open>maxActions\<close>, \<open>engage\<close>,
  \<open>Engage\<close>, \<open>postId\<close>, \<open>PostId\<close>): none of them is a built-in property of a
  primitive or an array, so the read is \<open>undefined\<close> there; on \<open>undefined\<close> and \<open>null\<close>
  the read throws a TypeError, which is \<open>None\<close>.
\<close>

fun get_prop :: "jsval \<Rightarrow> string \<Rightarrow> jsval option" where
  "get_prop JUndefined k = None"
| "get_prop JNull k = None"
| "get_prop (JObj kvs) k = Some (own_prop kvs k)"
| "get_prop v k = Some JUndefined"

text \<open>\<open>Math.max(a, b)\<close> on numbers.\<close>

fun math_max :: "jsnum \<Rightarrow> jsnum \<Rightarrow> jsnum" where
  "math_max NaN b = NaN"
| "math_max a NaN = NaN"
| "math_max PosInf b = PosInf"
| "math_max a PosInf = PosInf"
| "math_max NegInf b = b"
| "math_max a NegInf = a"
| "math_max (Fin i) (Fin j) = Fin (max i j)"

text \<open>\<open>a !== b\<close> for a value against a number.\<close>

fun strict_neq_num :: "jsval \<Rightarrow> jsnum \<Rightarrow> bool" where
  "strict_neq_num (JNum NaN) m = True"
| "strict_neq_num (JNum n) m = (m = NaN \<or> n \<noteq> m)"
| "strict_neq_num v m = True"

text \<open>\<open>1 <= n\<close> on numbers (false for \<open>NaN\<close>).\<close>

fun num_ge_one :: "jsnum \<Rightarrow> bool" where
  "num_ge_one NaN = False"
| "num_ge_one PosInf = True"
| "num_ge_one NegInf = False"
| "num_ge_one (Fin i) = (1 \<le> i)"

section \<open>Logging\<close>

text \<open>
  A log entry is the logger method called, the message and the detail object. Only the
  logger calls whose content a property below speaks about are modelled; the logger has
  no influence on control flow.
\<close>

datatype level = LInfo | LWarn | LError | LSuccess

type_synonym log_entry = "level \<times> string \<times> jsobj"

section \<open>The runner object\<close>

record stats =
  commentsPosted :: int
  likesGiven :: int
  connectionsRequested :: int
  postsProcessed :: int
  errors :: int
  startTime :: "nat option"

record hud =
  hud_action :: string
  hud_postId :: string
  hud_engage :: string
  hud_commentsPosted :: int
  hud_maxComments :: jsnum
  hud_lastKey :: "string option"

record timing =
  tabDelayMin :: int
  tabDelayMax :: int
  pasteDelayMin :: int
  pasteDelayMax :: int
  cooldownMin :: int
  cooldownMax :: int
  webhookWaitMin :: int
  webhookWaitMax :: int

text \<open>The verdict object \<open>{ engage, postId }\<close> of the decision client.\<close>

record decision =
  engage :: string
  d_postId :: "jsval option"

text \<open>Lifecycle calls that reach the runner while the loop is suspended in an await.\<close>

datatype ctl = Pause | Resume | Stop

text \<open>
  What the model records of the loop's calls: a Tab key press, a detection of an item,
  the identifier being added to \<open>seenPostIds\<close>, a call of the decision client, a call
  of \<open>engageWithPost\<close>, the start of a cool-down wait (the clock in ms and the duration),
  a navigation attempt, a backoff sleep, and the session trace being written by
  \<open>tracing.stop\<close>.
\<close>

datatype event =
    TabPress nat
  | Detected string
  | MarkSeen string
  | Decide string
  | Act string
  | Cooldown nat int
  | Goto nat
  | Backoff int
  | TraceSaved string

text \<open>
  The fields of \<open>PlaywrightRunner\<close> that the modelled methods read or write. \<open>pageOpen\<close>,
  \<open>contextOpen\<close> and \<open>browserOpen\<close> say whether \<open>this.page\<close>, \<open>this.context\<close> and
  \<open>this.browser\<close> are non-null. \<open>domCache\<close> holds the entries of \<open>_domCache\<close> under the keys
  \<open>engagement_<postId>\<close> (the other writer, \<open>extractPostData\<close>, uses keys \<open>post_<time>\<close>),
  in insertion order, each with its timestamp.
  The last fields are the model's account of the environment: the clock in ms, the
  lifecycle calls still to arrive with their arrival times, how many focus probes,
  decision requests, engagements and random draws have been made, and the recorded calls.
\<close>

record runner =
  isRunning :: bool
  sessionId :: "string option"
  stopRequested :: bool
  isPaused :: bool
  keyboardLoopActive :: bool
  optimizeEngagement :: bool
  postAnalysisWebhook :: "string option"
  seenPostIds :: "string set"
  sessionStats :: stats
  thresholds :: jsval
  thresholdsValidated :: bool
  timing :: "timing option"
  hudState :: hud
  domCache :: "(string \<times> decision \<times> nat) list"
  pageOpen :: bool
  contextOpen :: bool
  browserOpen :: bool
  log :: "log_entry list"
  clock :: nat
  pending :: "(nat \<times> ctl) list"
  nProbe :: nat
  nDecide :: nat
  nEngage :: nat
  nRand :: nat
  trace :: "event list"

definition zero_stats :: stats where
  "zero_stats = \<lparr>commentsPosted = 0, likesGiven = 0, connectionsRequested = 0,
     postsProcessed = 0, errors = 0, startTime = None\<rparr>"

text \<open>The state the constructor leaves.\<close>

definition new_runner :: runner where
  "new_runner = \<lparr>isRunning = False, sessionId = None, stopRequested = False,
     isPaused = False, keyboardLoopActive = False, optimizeEngagement = False,
     postAnalysisWebhook = None, seenPostIds = {}, sessionStats = zero_stats,
     thresholds = JNull, thresholdsValidated = False, timing = None,
     hudState = \<lparr>hud_action = ''Idle'', hud_postId = [], hud_engage = ''-'',
       hud_commentsPosted = 0, hud_maxComments = Fin 0, hud_lastKey = None\<rparr>,
     domCache = [], pageOpen = False, contextOpen = False, browserOpen = False,
     log = [], clock = 0, pending = [], nProbe = 0, nDecide = 0, nEngage = 0,
     nRand = 0, trace = []\<rparr>"

text \<open>
  The \<open>defaults\<close> getter: \<open>maxActions: 10\<close> and the timing defaults. It has no
  \<open>minLikes\<close>, \<open>minComments\<close> or \<open>minReposts\<close>, so these reads are \<open>undefined\<close>.
\<close>

definition defaults_maxActions :: jsval where
  "defaults_maxActions = JNum (Fin 10)"

definition defaults_timing :: timing where
  "defaults_timing = \<lparr>tabDelayMin = 1000, tabDelayMax = 2000, pasteDelayMin = 1000,
     pasteDelayMax = 2000, cooldownMin = 5000, cooldownMax = 10000,
     webhookWaitMin = 3000, webhookWaitMax = 4000\<rparr>"

definition logger :: "level \<Rightarrow> string \<Rightarrow> jsobj \<Rightarrow> runner \<Rightarrow> runner" where
  "logger lv msg details r = r\<lparr>log := log r @ [(lv, msg, details)]\<rparr>"

section \<open>getThresholds\<close>

text \<open>
  \<open>parseInt\<close> is the runtime's built-in and is a parameter of the model: any function
  from values to numbers. \<open>env\<close> is \<open>process.env\<close>; an unset variable reads \<open>undefined\<close>.
  A thrown error is \<open>Inl\<close> of its message.
\<close>

definition env_val :: "(string \<Rightarrow> string option) \<Rightarrow> string \<Rightarrow> jsval" where
  "env_val env k = (case env k of None \<Rightarrow> JUndefined | Some s \<Rightarrow> JStr s)"

definition getThresholds ::
  "(jsval \<Rightarrow> jsnum) \<Rightarrow> (string \<Rightarrow> string option) \<Rightarrow> runner \<Rightarrow> string + (jsobj \<times> runner)" where
  "getThresholds parseInt env r =
    (let th = js_or (thresholds r) (JObj
           [(''minLikes'', js_or (JNum (parseInt (env_val env ''MIN_REACTIONS_THRESHOLD''))) JUndefined),
            (''minComments'', js_or (JNum (parseInt (env_val env ''MIN_COMMENTS_THRESHOLD''))) JUndefined),
            (''minReposts'', js_or (JNum (parseInt (env_val env ''MIN_REPOSTS_THRESHOLD''))) JUndefined),
            (''maxActions'', js_or (JNum (parseInt (env_val env ''MAX_COMMENTS_PER_SESSION''))) defaults_maxActions)])
     in case get_prop th ''maxActions'' of
          None \<Rightarrow> Inl ''TypeError''
        | Some original \<Rightarrow>
            (let clamped_max = math_max (Fin 1) (num_or (parseInt original) (Fin 10));
                 clamped = [(''maxActions'', JNum clamped_max)];
                 r1 = (if \<not> thresholdsValidated r
                       then (if strict_neq_num original clamped_max
                             then logger LWarn ''Invalid maxActions detected, clamped to safe value''
                                    [(''original'', original), (''clamped'', JNum clamped_max)] r
                             else r)\<lparr>thresholdsValidated := True\<rparr>
                       else r)
             in Inr (clamped, r1)))"

section \<open>Navigation with retries\<close>

text \<open>Decimal rendering of a number inside a template string.\<close>

function show_nat :: "nat \<Rightarrow> string" where
  "show_nat n = (if n < 10 then [''0123456789'' ! n]
                 else show_nat (n div 10) @ [''0123456789'' ! (n mod 10)])"
  by pat_completeness auto
termination
  by (relation "measure id") auto

declare show_nat.simps [simp del]

text \<open>\<open>path.join\<close> of a directory and a file name.\<close>

definition path_join :: "string \<Rightarrow> string \<Rightarrow> string" where
  "path_join d f = d @ ''/'' @ f"

text \<open>
  What the browser does in one navigation attempt: whether \<open>page.goto\<close> throws, whether
  a login form is showing, whether the user completes the login in time, the result of
  \<open>waitForPageReadiness\<close>, whether the screenshot and the mini-trace can be saved, and
  whether the backoff wait throws. \<open>dismissCookieBanner\<close>, \<open>checkLoginRequired\<close> and
  \<open>waitForPageReadiness\<close> catch their own errors.
\<close>

record attempt_env =
  goto_throws :: "string option"
  loginNeeded :: bool
  login_completes :: bool
  ready :: bool
  screenshot_ok :: bool
  trace_ok :: bool
  backoff_throws :: "string option"

record artifact =
  a_type :: string
  a_path :: string
  a_attempt :: nat

datatype nav_result = NavSuccess | NavFailure string "artifact list"

definition MAX_ATTEMPTS :: nat where
  "MAX_ATTEMPTS = 3"

definition BACKOFF_DELAYS :: "int list" where
  "BACKOFF_DELAYS = [2000, 4000, 6000]"

text \<open>The \<open>try\<close> block of one attempt: \<open>None\<close> when the page is ready, else the error thrown.\<close>

definition attempt_try :: "attempt_env \<Rightarrow> string option" where
  "attempt_try e =
    (case goto_throws e of
       Some m \<Rightarrow> Some m
     | None \<Rightarrow>
         if loginNeeded e \<and> \<not> login_completes e
         then Some ''User did not complete login within 5 minutes''
         else if ready e then None
         else Some ''Readiness check failed - no stable selectors found'')"

definition record_event :: "event \<Rightarrow> runner \<Rightarrow> runner" where
  "record_event ev r = r\<lparr>trace := trace r @ [ev]\<rparr>"

text \<open>
  \<open>updateHUD(updates)\<close>: nothing without a page; else the updates are merged into
  \<open>hudState\<close>. Errors of the page evaluation are ignored inside.
\<close>

definition updateHUD :: "(hud \<Rightarrow> hud) \<Rightarrow> runner \<Rightarrow> runner" where
  "updateHUD updates r = (if pageOpen r then r\<lparr>hudState := updates (hudState r)\<rparr> else r)"

definition nav_hint :: string where
  "nav_hint = ''LinkedIn didn't load after 3 attempts. Check login/connectivity and try again.''"

text \<open>The artifact entries pushed in the \<open>catch\<close> block of one attempt.\<close>

definition captured :: "(string \<Rightarrow> string) \<Rightarrow> string \<Rightarrow> attempt_env \<Rightarrow> nat \<Rightarrow> artifact list" where
  "captured resolve runsDir e attempt =
     (if screenshot_ok e
      then [\<lparr>a_type = ''screenshot'',
              a_path = resolve (path_join runsDir (''attempt-'' @ show_nat attempt @ ''-failure.png'')),
              a_attempt = attempt\<rparr>] else []) @
     (if trace_ok e
      then [\<lparr>a_type = ''trace'',
              a_path = resolve (path_join runsDir (''attempt-'' @ show_nat attempt @ ''-trace.zip'')),
              a_attempt = attempt\<rparr>] else [])"

text \<open>
  The \<open>for\<close> loop over \<open>attempt\<close>. The function is called by \<open>start()\<close> right after the page
  has been opened. \<open>resolve\<close> is \<open>path.resolve\<close>. An error thrown by the backoff wait is
  not caught inside the function and leaves it (\<open>Inl\<close>).
\<close>

function navigate_from ::
  "(string \<Rightarrow> string) \<Rightarrow> (nat \<Rightarrow> attempt_env) \<Rightarrow> string \<Rightarrow> nat \<Rightarrow> artifact list \<Rightarrow> runner
     \<Rightarrow> string + (nav_result \<times> runner)" where
  "navigate_from resolve w runsDir attempt artifacts r =
    (if attempt \<le> MAX_ATTEMPTS then
       (let r1 = updateHUD (hud_action_update (\<lambda>_.
                    ''Loading LinkedIn (attempt '' @ show_nat attempt @ ''/'' @ show_nat MAX_ATTEMPTS @ '')'')) r;
            r2 = record_event (Goto attempt) r1
        in case attempt_try (w attempt) of
             None \<Rightarrow> Inr (NavSuccess, r2)
           | Some err \<Rightarrow>
               (let artifacts1 = artifacts @ captured resolve runsDir (w attempt) attempt
                in if attempt < MAX_ATTEMPTS
                   then (case backoff_throws (w attempt) of
                           Some m \<Rightarrow> Inl m
                         | None \<Rightarrow>
                             navigate_from resolve w runsDir (attempt + 1) artifacts1
                               (record_event (Backoff (BACKOFF_DELAYS ! (attempt - 1))) r2))
                   else navigate_from resolve w runsDir (attempt + 1) artifacts1 r2))
     else Inr (NavFailure nav_hint artifacts, r))"
  by pat_completeness auto
termination
  by (relation "measure (\<lambda>(resolve, w, runsDir, attempt, artifacts, r). MAX_ATTEMPTS + 1 - attempt)") auto

declare navigate_from.simps [simp del]

definition navigateToLinkedInWithRetries ::
  "(string \<Rightarrow> string) \<Rightarrow> (nat \<Rightarrow> attempt_env) \<Rightarrow> string \<Rightarrow> runner \<Rightarrow> string + (nav_result \<times> runner)" where
  "navigateToLinkedInWithRetries resolve w runsDir r = navigate_from resolve w runsDir 1 [] r"

text \<open>An environment in which the page is never ready and every capture succeeds.\<close>

definition always_fail :: "nat \<Rightarrow> attempt_env" where
  "always_fail k = \<lparr>goto_throws = None, loginNeeded = False, login_completes = False,
     ready = False, screenshot_ok = True, trace_ok = True, backoff_throws = None\<rparr>"

text \<open>A \<open>parseInt\<close> for the examples: numbers as they are, three decimal strings.\<close>

definition parseInt_example :: "jsval \<Rightarrow> jsnum" where
  "parseInt_example v =
    (case v of
       JNum n \<Rightarrow> n
     | JStr s \<Rightarrow> (if s = ''-5'' then Fin (- 5) else if s = ''0'' then Fin 0
                  else if s = ''7'' then Fin 7 else NaN)
     | _ \<Rightarrow> NaN)"

section \<open>Strings\<close>

text \<open>
  Strings are lists of 8-bit characters, so the string functions below are those of
  JavaScript on ASCII text: \<open>includes\<close>, \<open>startsWith\<close>, \<open>endsWith\<close>, \<open>trim\<close> (ASCII
  white space) and \<open>toLowerCase\<close> (the letters A to Z).
\<close>

definition startsWith :: "string \<Rightarrow> string \<Rightarrow> bool" where
  "startsWith s t = (take (length t) s = t)"

definition endsWith :: "string \<Rightarrow> string \<Rightarrow> bool" where
  "endsWith s t = (length t \<le> length s \<and> drop (length s - length t) s = t)"

fun str_includes :: "string \<Rightarrow> string \<Rightarrow> bool" where
  "str_includes [] t = (t = [])"
| "str_includes (c # cs) t = (startsWith (c # cs) t \<or> str_includes cs t)"

definition is_space :: "char \<Rightarrow> bool" where
  "is_space c = (c \<in> set [CHR '' '', CHR 0x09, CHR 0x0A, CHR 0x0B, CHR 0x0C, CHR 0x0D])"

definition trim :: "string \<Rightarrow> string" where
  "trim s = rev (dropWhile is_space (rev (dropWhile is_space s)))"

definition lower_char :: "char \<Rightarrow> char" where
  "lower_char c =
    (case map_of (zip ''ABCDEFGHIJKLMNOPQRSTUVWXYZ'' ''abcdefghijklmnopqrstuvwxyz'') c of
       Some d \<Rightarrow> d
     | None \<Rightarrow> c)"

definition toLowerCase :: "string \<Rightarrow> string" where
  "toLowerCase s = map lower_char s"

section \<open>Lifecycle: pause, resume, cleanup, stop\<close>

datatype ctl_result = CtlOk string | CtlError string

definition pause :: "runner \<Rightarrow> ctl_result \<times> runner" where
  "pause r =
    (if \<not> keyboardLoopActive r then (CtlError ''No active automation'', r)
     else (CtlOk ''paused'', r\<lparr>isPaused := True\<rparr>))"

definition resume :: "runner \<Rightarrow> ctl_result \<times> runner" where
  "resume r =
    (if \<not> keyboardLoopActive r then (CtlError ''No active automation'', r)
     else if \<not> isPaused r then (CtlError ''Automation is not paused'', r)
     else (CtlOk ''running'', r\<lparr>isPaused := False\<rparr>))"

text \<open>\<open>cleanup()\<close>: the page and the browser are closed, errors of closing are caught.\<close>

definition cleanup :: "runner \<Rightarrow> runner" where
  "cleanup r = r\<lparr>isRunning := False, pageOpen := False, browserOpen := False\<rparr>"

definition resetStats :: "runner \<Rightarrow> runner" where
  "resetStats r = r\<lparr>sessionStats := zero_stats\<rparr>"

text \<open>
  \<open>cleanupTempData()\<close> deletes, when \<open>_domCache\<close> holds more than 50 entries, those older
  than the cache timeout, clears the memoisation cache and the request queue. The last
  two are not read by any modelled method.
\<close>

definition cacheTimeout :: int where
  "cacheTimeout = 5000"

definition cleanupTempData :: "runner \<Rightarrow> runner" where
  "cleanupTempData r =
    (if length (domCache r) > 50
     then r\<lparr>domCache := filter (\<lambda>(k, res, ts). \<not> int (clock r) - int ts > cacheTimeout) (domCache r)\<rparr>
     else r)"

text \<open>
  The class body defines \<open>stop()\<close> twice. What the file system and the tracer do when the
  first definition runs: whether \<open>tracing.stop\<close> succeeds, and the listing of the session
  directory (\<open>None\<close> when \<open>readdirSync\<close> throws). \<open>runs\<close> is the \<open>runs\<close> directory next to the
  module, \<open>resolve\<close> is \<open>path.resolve\<close>.
\<close>

record stop_env =
  trace_saves :: bool
  session_files :: "string list option"

record artifact_paths =
  traceFile :: "string option"
  videoFile :: "string option"
  sessionDir :: "string option"

text \<open>The returned object; a key that the object does not have is \<open>None\<close>.\<close>

record stop_result =
  s_success :: bool
  s_message :: string
  s_stats :: stats
  s_sessionId :: "string option option"
  s_artifacts :: "artifact_paths option"

definition sessionId_truthy :: "runner \<Rightarrow> bool" where
  "sessionId_truthy r = (case sessionId r of None \<Rightarrow> False | Some s \<Rightarrow> s \<noteq> [])"

definition stop_first ::
  "(string \<Rightarrow> string) \<Rightarrow> string \<Rightarrow> stop_env \<Rightarrow> runner \<Rightarrow> stop_result \<times> runner" where
  "stop_first resolve runs env r =
    (let r1 = r\<lparr>stopRequested := True, keyboardLoopActive := False\<rparr>;
         dir = path_join runs (case sessionId r1 of None \<Rightarrow> [] | Some s \<Rightarrow> s);
         tracePath = path_join dir ''trace.zip'';
         traced = (contextOpen r1 \<and> sessionId_truthy r1 \<and> trace_saves env);
         r2 = (if traced then record_event (TraceSaved tracePath) r1 else r1);
         video = (if sessionId_truthy r1
                  then (case session_files env of
                          None \<Rightarrow> None
                        | Some files \<Rightarrow>
                            (case find (\<lambda>f. startsWith f ''video-'' \<and> endsWith f ''.webm'') files of
                               None \<Rightarrow> None
                             | Some f \<Rightarrow> Some (resolve (path_join dir f))))
                  else None);
         artifactPaths = \<lparr>traceFile = (if traced then Some (resolve tracePath) else None),
                          videoFile = video,
                          sessionDir = (if traced then Some (resolve dir) else None)\<rparr>;
         r3 = cleanup r2;
         finalStats = sessionStats r3;
         r4 = resetStats r3
     in (\<lparr>s_success = True, s_message = ''Runner stopped'', s_stats = finalStats,
          s_sessionId = Some (sessionId r4), s_artifacts = Some artifactPaths\<rparr>, r4))"

definition stop_second :: "runner \<Rightarrow> stop_result \<times> runner" where
  "stop_second r =
    (let r1 = r\<lparr>keyboardLoopActive := False\<rparr>;
         r2 = cleanupTempData r1;
         r3 = cleanup r2;
         finalStats = sessionStats r3;
         r4 = resetStats r3;
         r5 = r4\<lparr>seenPostIds := {}\<rparr>
     in (\<lparr>s_success = True, s_message = ''Runner stopped'', s_stats = finalStats,
          s_sessionId = None, s_artifacts = None\<rparr>, r5))"

text \<open>
  Both definitions are methods named \<open>stop\<close> of the one class body; the later definition
  replaces the earlier one on the prototype, so a call of \<open>runner.stop()\<close> runs the second.
\<close>

definition stop :: "runner \<Rightarrow> stop_result \<times> runner" where
  "stop r = stop_second r"

section \<open>Suspension points\<close>

text \<open>
  The loop is one asynchronous function; other code runs only while it is suspended in
  an \<open>await\<close>. The lifecycle calls come through the control API, whose handlers refuse a
  stop when the runner is not running, and a pause or resume when the runner is not
  running or the loop is not active. A call is delivered as a whole.
\<close>

definition api_call :: "ctl \<Rightarrow> runner \<Rightarrow> runner" where
  "api_call c r =
    (case c of
       Stop \<Rightarrow> (if \<not> isRunning r then r else snd (stop r))
     | Pause \<Rightarrow> (if \<not> isRunning r \<or> \<not> keyboardLoopActive r then r else snd (pause r))
     | Resume \<Rightarrow> (if \<not> isRunning r \<or> \<not> keyboardLoopActive r then r
                  else if \<not> isPaused r then r else snd (resume r)))"

text \<open>
  A wait of \<open>d\<close> ms (a negative timeout does not wait): the clock advances and the
  lifecycle calls that arrive in the meantime run, in their order.
\<close>

definition await_ms :: "int \<Rightarrow> runner \<Rightarrow> runner" where
  "await_ms d r =
    (let t = clock r + nat d;
         due = filter (\<lambda>(at, c). at \<le> t) (pending r);
         later = filter (\<lambda>(at, c). \<not> at \<le> t) (pending r)
     in foldl (\<lambda>r' (at, c). api_call c r') (r\<lparr>clock := t, pending := later\<rparr>) due)"

section \<open>The outbound request client\<close>

record js_error =
  e_name :: string
  e_message :: string
  e_cause_code :: "string option"

definition new_Error :: "string \<Rightarrow> js_error" where
  "new_Error m = \<lparr>e_name = ''Error'', e_message = m, e_cause_code = None\<rparr>"

definition TypeError :: "string \<Rightarrow> js_error" where
  "TypeError m = \<lparr>e_name = ''TypeError'', e_message = m, e_cause_code = None\<rparr>"

text \<open>The error with which \<open>fetch\<close> rejects when the abort controller fires.\<close>

definition AbortError :: js_error where
  "AbortError = \<lparr>e_name = ''AbortError'', e_message = ''This operation was aborted'',
     e_cause_code = None\<rparr>"

record request =
  url :: string
  payload :: jsval
  timeout :: nat

text \<open>
  The response of the server: status, status text, and what \<open>response.text()\<close> gives (the
  body, or the error it rejects with). \<open>fetch\<close> either rejects or resolves with a response,
  after \<open>latency\<close> ms.
\<close>

record response =
  status :: nat
  statusText :: string
  body :: "js_error + string"

datatype fetch_outcome = Rejects js_error | Resolves response

record request_env =
  latency :: nat
  fetched :: fetch_outcome

text \<open>
  The built-ins of the runtime are parameters: \<open>JSON.stringify\<close> together with the
  pre-fetch log that reads the string (\<open>Inl\<close> the message of what is thrown there),
  \<open>JSON.parse\<close> (\<open>Inl\<close> the message of the SyntaxError), and the host name that \<open>new URL\<close>
  finds (\<open>None\<close> when it throws).
\<close>

record platform =
  json_stringify :: "jsval \<Rightarrow> string + string"
  json_parse :: "string \<Rightarrow> string + jsval"
  url_hostname :: "string \<Rightarrow> string option"

definition response_ok :: "response \<Rightarrow> bool" where
  "response_ok resp = (200 \<le> status resp \<and> status resp \<le> 299)"

text \<open>
  The success log after \<open>JSON.parse\<close> evaluates \<open>Object.keys(parsed)\<close> and
  \<open>'engage' in parsed\<close> inside the same \<open>try\<close>; on \<open>null\<close> and on a primitive this throws a
  TypeError, which the \<open>catch\<close> around the parse turns into the invalid-JSON error (the
  message of the runtime names the primitive at its end).
\<close>

fun keys_and_in_throw :: "jsval \<Rightarrow> string option" where
  "keys_and_in_throw (JObj kvs) = None"
| "keys_and_in_throw (JArr xs) = None"
| "keys_and_in_throw JNull = Some ''Cannot convert undefined or null to object''"
| "keys_and_in_throw JUndefined = Some ''Cannot convert undefined or null to object''"
| "keys_and_in_throw v = Some ''Cannot use 'in' operator to search for 'engage' in a primitive''"

definition invalid_json :: "string \<Rightarrow> string \<Rightarrow> js_error" where
  "invalid_json m responseText =
     new_Error (''Invalid JSON response: '' @ m @ ''. Response: '' @ take 100 responseText)"

text \<open>
  The \<open>try\<close> block around \<open>fetch\<close>: the abort timer fires when the fetch has not settled
  after \<open>timeout\<close> ms. The result is the parsed body or the error thrown, with the state
  at that point.
\<close>

definition request_try ::
  "platform \<Rightarrow> request_env \<Rightarrow> request \<Rightarrow> runner \<Rightarrow> (js_error + jsval) \<times> runner" where
  "request_try pf w req r =
    (if timeout req \<le> latency w then (Inl AbortError, await_ms (int (timeout req)) r)
     else
       (let r1 = await_ms (int (latency w)) r
        in case fetched w of
             Rejects e \<Rightarrow> (Inl e, r1)
           | Resolves resp \<Rightarrow>
               if \<not> response_ok resp then
                 (let responseBody = (case body resp of Inl e \<Rightarrow> JNull | Inr text \<Rightarrow> JStr text);
                      r2 = logger LError ''Webhook HTTP error''
                             [(''status'', JNum (Fin (int (status resp)))),
                              (''statusText'', JStr (statusText resp)),
                              (''url'', JStr (url req)),
                              (''responseBody'',
                                 (case responseBody of JStr text \<Rightarrow> JStr (take 500 text)
                                                     | _ \<Rightarrow> JUndefined))] r1
                  in (Inl (new_Error (''HTTP '' @ show_nat (status resp) @ '': '' @ statusText resp)), r2))
               else
                 (case body resp of
                    Inl e \<Rightarrow> (Inl e, r1)
                  | Inr responseText \<Rightarrow>
                      if responseText = [] \<or> length (trim responseText) = 0 then
                        (Inl (new_Error ''Webhook returned empty response body''),
                         logger LError ''Webhook returned empty response'' [] r1)
                      else
                        (case json_parse pf responseText of
                           Inl m \<Rightarrow>
                             (Inl (invalid_json m responseText),
                              logger LError ''Failed to parse JSON response''
                                [(''error'', JStr m), (''responseText'', JStr (take 500 responseText)),
                                 (''responseLength'', JNum (Fin (int (length responseText))))] r1)
                         | Inr parsed \<Rightarrow>
                             (case keys_and_in_throw parsed of
                                Some m \<Rightarrow>
                                  (Inl (invalid_json m responseText),
                                   logger LError ''Failed to parse JSON response''
                                     [(''error'', JStr m), (''responseText'', JStr (take 500 responseText)),
                                      (''responseLength'', JNum (Fin (int (length responseText))))] r1)
                              | None \<Rightarrow> (Inr parsed, r1))))))"

text \<open>The \<open>errorType\<close> that the \<open>catch\<close> block detects, in the order of its tests.\<close>

definition errorType :: "js_error \<Rightarrow> string" where
  "errorType error =
    (if e_name error = ''AbortError'' then ''TIMEOUT''
     else if e_cause_code error = Some ''ENOTFOUND'' \<or> str_includes (e_message error) ''ENOTFOUND''
             \<or> str_includes (e_message error) ''getaddrinfo'' then ''DNS_FAILURE''
     else if e_cause_code error = Some ''ECONNREFUSED'' \<or> str_includes (e_message error) ''ECONNREFUSED''
          then ''CONNECTION_REFUSED''
     else if e_cause_code error = Some ''ECONNRESET'' \<or> str_includes (e_message error) ''ECONNRESET''
             \<or> str_includes (e_message error) ''socket hang up'' then ''CONNECTION_RESET''
     else if e_cause_code error = Some ''ETIMEDOUT'' \<or> str_includes (e_message error) ''ETIMEDOUT''
          then ''NETWORK_TIMEOUT''
     else if e_cause_code error = Some ''EPIPE'' \<or> str_includes (e_message error) ''EPIPE''
          then ''BROKEN_PIPE''
     else if str_includes (e_message error) ''certificate'' \<or> str_includes (e_message error) ''SSL''
             \<or> str_includes (e_message error) ''TLS'' then ''SSL_ERROR''
     else if str_includes (e_message error) ''fetch failed'' then ''FETCH_FAILED''
     else ''UNKNOWN'')"

text \<open>
  The \<open>catch\<close> block: the error is classified, logged with its diagnostics and thrown
  again. In the DNS branch the diagnosis evaluates \<open>new URL(url).hostname\<close>; when that
  throws, its TypeError leaves the function instead and nothing is logged. Of the
  diagnostics the model keeps the url, the timeout, the error's name and message and the
  error type.
\<close>

definition request_catch :: "platform \<Rightarrow> request \<Rightarrow> js_error \<Rightarrow> runner \<Rightarrow> js_error \<times> runner" where
  "request_catch pf req error r =
    (if errorType error = ''DNS_FAILURE'' \<and> url_hostname pf (url req) = None
     then (TypeError ''Invalid URL'', r)
     else (error,
           logger LError ''Webhook request failed with detailed diagnostics''
             [(''url'', JStr (url req)), (''timeout'', JNum (Fin (int (timeout req)))),
              (''errorName'', JStr (e_name error)), (''errorMessage'', JStr (e_message error)),
              (''errorType'', JStr (errorType error))] r))"

definition executeWebhookRequest ::
  "platform \<Rightarrow> request_env \<Rightarrow> request \<Rightarrow> runner \<Rightarrow> (js_error + jsval) \<times> runner" where
  "executeWebhookRequest pf w req r =
    (case json_stringify pf (payload req) of
       Inl m \<Rightarrow>
         (Inl (new_Error (''Payload serialization failed: '' @ m)),
          logger LError ''PRE-FETCH: Failed to stringify payload'' [(''error'', JStr m)] r)
     | Inr payloadStringified \<Rightarrow>
         (case request_try pf w req r of
            (Inr parsed, r1) \<Rightarrow> (Inr parsed, r1)
          | (Inl error, r1) \<Rightarrow>
              (case request_catch pf req error r1 of (thrown, r2) \<Rightarrow> (Inl thrown, r2))))"

section \<open>The decision client\<close>

record postData =
  postId :: string
  postHTML :: string
  postContent :: string
  authorName :: string
  outerHTML :: "string option"

definition fail_open :: decision where
  "fail_open = \<lparr>engage = ''yes'', d_postId = None\<rparr>"

text \<open>\<open>_domCache.set(key, value)\<close> on a Map in insertion order.\<close>

definition cache_set ::
  "string \<Rightarrow> decision \<times> nat \<Rightarrow> (string \<times> decision \<times> nat) list \<Rightarrow> (string \<times> decision \<times> nat) list" where
  "cache_set k v m =
    (if k \<in> set (map fst m) then map (\<lambda>(k', v'). if k' = k then (k', v) else (k', v')) m
     else m @ [(k, v)])"

text \<open>
  The normalisation of the parsed response: \<open>None\<close> when it throws a TypeError (a verdict
  that is not a string has no \<open>toLowerCase\<close>).
\<close>

definition normalizeResult :: "jsval \<Rightarrow> postData \<Rightarrow> decision option" where
  "normalizeResult result pd =
    (case (get_prop result ''engage'', get_prop result ''Engage'',
           get_prop result ''postId'', get_prop result ''PostId'') of
       (Some e1, Some e2, Some p1, Some p2) \<Rightarrow>
         (case js_or (js_or e1 e2) (JStr ''yes'') of
            JStr s \<Rightarrow> Some \<lparr>engage = toLowerCase s,
                            d_postId = Some (js_or (js_or p1 p2) (JStr (postId pd)))\<rparr>
          | _ \<Rightarrow> None)
     | _ \<Rightarrow> None)"

definition outer_html :: "postData \<Rightarrow> string" where
  "outer_html pd = (case outerHTML pd of None \<Rightarrow> postHTML pd
                                        | Some h \<Rightarrow> if h \<noteq> [] then h else postHTML pd)"

text \<open>
  The cache check: the verdict stored under \<open>engagement_<postId>\<close>, when there is one
  younger than the cache timeout.
\<close>

definition cacheKey :: "postData \<Rightarrow> string" where
  "cacheKey pd = ''engagement_'' @ postId pd"

definition fresh_verdict :: "postData \<Rightarrow> runner \<Rightarrow> decision option" where
  "fresh_verdict pd r =
    (case map_of (domCache r) (cacheKey pd) of
       None \<Rightarrow> None
     | Some (res, ts) \<Rightarrow> if int (clock r) - int ts < cacheTimeout then Some res else None)"

text \<open>
  \<open>checkEngagementDecision(postData)\<close>. Every error thrown inside its \<open>try\<close> ends in the
  \<open>catch\<close>, which returns the affirmative verdict.
\<close>

definition checkEngagementDecision ::
  "platform \<Rightarrow> request_env \<Rightarrow> postData \<Rightarrow> runner \<Rightarrow> decision \<times> runner" where
  "checkEngagementDecision pf w pd r =
    (case postAnalysisWebhook r of
       None \<Rightarrow> (fail_open, r)
     | Some webhook \<Rightarrow>
         if webhook = [] then (fail_open, r)
         else
           (case fresh_verdict pd r of
              Some res \<Rightarrow> (res, r)
            | None \<Rightarrow>
                (let r1 = updateHUD (\<lambda>h. h\<lparr>hud_postId := postId pd,
                                hud_action := ''Waiting for AI analysis...'',
                                hud_engage := ''Pending...''\<rparr>) r;
                     req = \<lparr>url = webhook,
                            payload = JObj [(''outer_html'', JStr (outer_html pd))],
                            timeout = 180000\<rparr>
                 in case executeWebhookRequest pf w req r1 of
                      (Inl error, r2) \<Rightarrow> (fail_open, r2)
                    | (Inr result, r2) \<Rightarrow>
                        (case normalizeResult result pd of
                           None \<Rightarrow> (fail_open, r2)
                         | Some normalizedResult \<Rightarrow>
                             (normalizedResult,
                              r2\<lparr>domCache := cache_set (cacheKey pd) (normalizedResult, clock r2)
                                                 (domCache r2)\<rparr>)))))"

section \<open>The automation loop\<close>

text \<open>
  What the page answers to one focus probe (a Tab key press, a delay, \<open>isInsidePost\<close>):
  the key press throws, the read of the focused element throws, the focus is in no post,
  or it is in the post with these data.
\<close>

datatype probe = PressThrows string | ReadThrows string | NoPost | Post postData

text \<open>
  The environment of the loop: the answer to the k-th focus probe, what the k-th decision
  request meets, the result and the duration (ms) of the k-th \<open>engageWithPost\<close> (which
  catches its own errors), the k-th value of \<open>Math.random()\<close> as a multiple of \<open>2^-53\<close>, the
  built-ins, and the bounds of \<open>randomDelay\<close>, which are
  \<open>parseInt(process.env.MIN_ACTION_DELAY_MS) || 3000\<close> and
  \<open>parseInt(process.env.MAX_ACTION_DELAY_MS) || 8000\<close>.
\<close>

record world =
  probe :: "nat \<Rightarrow> probe"
  request_at :: "nat \<Rightarrow> request_env"
  engagement :: "nat \<Rightarrow> bool \<times> nat"
  random :: "nat \<Rightarrow> nat"
  builtins :: platform
  minActionDelay :: int
  maxActionDelay :: int

text \<open>\<open>Math.floor(Math.random() * span)\<close>\<close>

definition draw :: "world \<Rightarrow> int \<Rightarrow> runner \<Rightarrow> int \<times> runner" where
  "draw w span r =
    ((int (random w (nRand r) mod 2 ^ 53) * span) div 2 ^ 53, r\<lparr>nRand := nRand r + 1\<rparr>)"

definition null_page :: string where
  "null_page = ''Cannot read properties of null''"

text \<open>The messages after which the \<open>catch\<close> of the loop leaves the loop.\<close>

definition closure_message :: "string \<Rightarrow> bool" where
  "closure_message m =
    (str_includes m ''Target page'' \<or> str_includes m ''Target closed''
     \<or> str_includes m ''context closed'' \<or> str_includes m ''Browser closed'')"

text \<open>
  The wait while paused. The loop calls \<open>randomDelay(1000, 1000)\<close>, and \<open>randomDelay\<close> takes no
  parameters: it draws its delay between its own bounds. The result is the error thrown,
  if any, and the state; a wait that never ends has no result.
\<close>

definition randomDelay :: "world \<Rightarrow> runner \<Rightarrow> string option \<times> runner" where
  "randomDelay w r =
    (case draw w (maxActionDelay w - minActionDelay w + 1) r of
       (x, r1) \<Rightarrow>
         if \<not> pageOpen r1 then (Some null_page, r1)
         else (None, await_ms (x + minActionDelay w) r1))"

partial_function (option) pauseWait :: "world \<Rightarrow> runner \<Rightarrow> (string option \<times> runner) option" where
  "pauseWait w r =
    (if isPaused r \<and> keyboardLoopActive r \<and> \<not> stopRequested r then
       (case randomDelay w r of
          (Some m, r1) \<Rightarrow> Some (Some m, r1)
        | (None, r1) \<Rightarrow> pauseWait w r1)
     else Some (None, r))"

declare pauseWait.simps [code]

text \<open>
  A Tab key press on the open page, with the answer of the page to the probe that it
  starts.
\<close>

definition pressTab :: "world \<Rightarrow> runner \<Rightarrow> probe \<times> runner" where
  "pressTab w r = (probe w (nProbe r), record_event (TabPress (clock r)) (r\<lparr>nProbe := nProbe r + 1\<rparr>))"

text \<open>
  The loop \<open>while (!foundNewPost)\<close> after an engagement, the same on the success and on the
  failure path: Tab, 300 ms, \<open>isInsidePost\<close>, until a post with another identifier has the
  focus. \<open>isInsidePost\<close> returns \<open>null\<close> without a page. The result is the error thrown, if
  any, and the state; a loop that never ends has no result.
\<close>

partial_function (option) advancePastPost ::
  "world \<Rightarrow> string \<Rightarrow> runner \<Rightarrow> (string option \<times> runner) option" where
  "advancePastPost w currentPostId r =
    (if \<not> pageOpen r then Some (Some null_page, r)
     else
       (case pressTab w r of
          (PressThrows m, r1) \<Rightarrow> Some (Some m, r1)
        | (ReadThrows m, r1) \<Rightarrow>
            (let r2 = await_ms 300 r1
             in if pageOpen r2 then Some (Some m, r2) else advancePastPost w currentPostId r2)
        | (NoPost, r1) \<Rightarrow> advancePastPost w currentPostId (await_ms 300 r1)
        | (Post checkPost, r1) \<Rightarrow>
            (let r2 = await_ms 300 r1
             in if pageOpen r2 \<and> postId checkPost \<noteq> [] \<and> postId checkPost \<noteq> currentPostId
                then Some (None, r2)
                else advancePastPost w currentPostId r2)))"

declare advancePastPost.simps [code]

text \<open>How the body of the loop's \<open>try\<close> ends.\<close>

datatype completion = Continue | Break | Thrown string

definition after_advance :: "(string option \<times> runner) option \<Rightarrow> (completion \<times> runner) option" where
  "after_advance res =
    (case res of
       None \<Rightarrow> None
     | Some (Some m, r) \<Rightarrow> Some (Thrown m, r)
     | Some (None, r) \<Rightarrow> Some (Continue, r))"

text \<open>\<open>maxActions - commentsPosted\<close>\<close>

fun num_minus :: "jsnum \<Rightarrow> int \<Rightarrow> jsnum" where
  "num_minus (Fin i) j = Fin (i - j)"
| "num_minus n j = n"

text \<open>
  The call of \<open>engageWithPost(postData)\<close>: it catches its own errors and returns whether
  the comment was posted; without a page it fails.
\<close>

definition engageWithPost :: "world \<Rightarrow> postData \<Rightarrow> runner \<Rightarrow> bool \<times> runner" where
  "engageWithPost w pd r =
    (pageOpen r \<and> fst (engagement w (nEngage r)),
     await_ms (int (snd (engagement w (nEngage r))))
       (record_event (Act (postId pd)) (r\<lparr>nEngage := nEngage r + 1\<rparr>)))"

text \<open>After a posted comment: the counter, the log entry and the HUD.\<close>

definition commentPosted :: "jsnum \<Rightarrow> runner \<Rightarrow> runner" where
  "commentPosted maxActions r =
    (let r1 = r\<lparr>sessionStats := (sessionStats r)\<lparr>commentsPosted :=
                   commentsPosted (sessionStats r) + 1\<rparr>\<rparr>;
         r2 = logger LSuccess ''Comment posted successfully''
                [(''commentsPosted'', JNum (Fin (commentsPosted (sessionStats r1)))),
                 (''remaining'', JNum (num_minus maxActions (commentsPosted (sessionStats r1))))] r1
     in updateHUD (\<lambda>h. h\<lparr>hud_action := ''Comment Posted'',
                 hud_commentsPosted := commentsPosted (sessionStats r2),
                 hud_maxComments := maxActions\<rparr>) r2)"

text \<open>
  The cool-down between comments: the duration is drawn, then
  \<open>this.page.waitForTimeout(cooldown)\<close>, which throws without a page.
\<close>

definition cooldownWait :: "world \<Rightarrow> timing \<Rightarrow> runner \<Rightarrow> string option \<times> runner" where
  "cooldownWait w t r =
    (case draw w (cooldownMax t - cooldownMin t) r of
       (x, r1) \<Rightarrow>
         if \<not> pageOpen r1 then (Some null_page, r1)
         else (None, await_ms (cooldownMin t + x)
                       (record_event (Cooldown (clock r1) (cooldownMin t + x)) r1)))"

text \<open>
  The engagement and what follows it: on success the bookkeeping, the cool-down and the
  advance; on failure the HUD and the advance.
\<close>

definition engagePost ::
  "world \<Rightarrow> jsnum \<Rightarrow> timing \<Rightarrow> postData \<Rightarrow> runner \<Rightarrow> (completion \<times> runner) option" where
  "engagePost w maxActions t pd r =
    (case engageWithPost w pd
            (updateHUD (\<lambda>h. h\<lparr>hud_action := ''Posting Comment'', hud_postId := postId pd,
                         hud_engage := ''YES''\<rparr>) r) of
       (commented, r1) \<Rightarrow>
         if commented then
           (case cooldownWait w t (commentPosted maxActions r1) of
              (Some m, r2) \<Rightarrow> Some (Thrown m, r2)
            | (None, r2) \<Rightarrow> after_advance (advancePastPost w (postId pd) r2))
         else
           after_advance (advancePastPost w (postId pd)
             (updateHUD (\<lambda>h. h\<lparr>hud_action := ''Skipped (Failed)'', hud_postId := postId pd\<rparr>) r1)))"

text \<open>\<open>this.seenPostIds.add(postData.postId)\<close>\<close>

definition markSeen :: "postData \<Rightarrow> runner \<Rightarrow> runner" where
  "markSeen pd r =
    record_event (MarkSeen (postId pd)) (r\<lparr>seenPostIds := insert (postId pd) (seenPostIds r)\<rparr>)"

text \<open>The call of the decision client in optimize mode.\<close>

definition decide :: "world \<Rightarrow> postData \<Rightarrow> runner \<Rightarrow> decision \<times> runner" where
  "decide w pd r =
    checkEngagementDecision (builtins w) (request_at w (nDecide r)) pd
      (record_event (Decide (postId pd)) (r\<lparr>nDecide := nDecide r + 1\<rparr>))"

text \<open>
  From the detection of a post on: the duplicate check, the identifier added to
  \<open>seenPostIds\<close>, in optimize mode the decision, then the engagement. The worker task
  between is awaited inside its own \<open>try\<close> and changes nothing that is read later.
  The idle callback on a negative verdict runs \<open>cleanupTempData\<close>.
\<close>

definition processPost ::
  "world \<Rightarrow> jsnum \<Rightarrow> timing \<Rightarrow> postData \<Rightarrow> runner \<Rightarrow> (completion \<times> runner) option" where
  "processPost w maxActions t pd r =
    (let r0 = record_event (Detected (postId pd)) r
     in if postId pd \<in> seenPostIds r0 then Some (Continue, r0)
        else
          (let r1 = updateHUD (\<lambda>h. h\<lparr>hud_postId := postId pd,
                          hud_action := (if optimizeEngagement r0 then ''Analyzing...'' else ''Engaging''),
                          hud_engage := (if optimizeEngagement r0 then ''Checking...'' else ''YES'')\<rparr>)
                      (markSeen pd r0)
           in if optimizeEngagement r1 then
                (case decide w (pd\<lparr>outerHTML := Some (postHTML pd)\<rparr>) r1 of
                   (decision, r2) \<Rightarrow>
                     if engage decision \<noteq> ''yes'' then
                       Some (Continue,
                             cleanupTempData (updateHUD (\<lambda>h. h\<lparr>hud_action := ''Skipped'',
                               hud_postId := postId pd, hud_engage := ''NO''\<rparr>) r2))
                     else
                       engagePost w maxActions t (pd\<lparr>outerHTML := Some (postHTML pd)\<rparr>)
                         (updateHUD (\<lambda>h. h\<lparr>hud_action := ''Approved'', hud_postId := postId pd,
                            hud_engage := ''YES''\<rparr>) r2))
              else engagePost w maxActions t pd r1))"

text \<open>The delay after the Tab key press, drawn from the range of the timing.\<close>

definition tabDelay :: "world \<Rightarrow> timing \<Rightarrow> runner \<Rightarrow> runner" where
  "tabDelay w t r =
    (case draw w (tabDelayMax t - tabDelayMin t) r of
       (x, r1) \<Rightarrow> await_ms (tabDelayMin t + x) r1)"

text \<open>\<open>this.timing || this.defaults\<close>\<close>

definition timing_of :: "runner \<Rightarrow> timing" where
  "timing_of r = (case timing r of Some t \<Rightarrow> t | None \<Rightarrow> defaults_timing)"

text \<open>The body of the \<open>try\<close> inside the loop.\<close>

definition tryBody :: "world \<Rightarrow> jsnum \<Rightarrow> runner \<Rightarrow> (completion \<times> runner) option" where
  "tryBody w maxActions r =
    (if stopRequested r then Some (Break, r)
     else
       (let r1 = updateHUD (\<lambda>h. h\<lparr>hud_lastKey := Some ''Tab''\<rparr>) r
        in if \<not> pageOpen r1 then Some (Thrown null_page, r1)
           else
             (case pressTab w r1 of
                (PressThrows m, r2) \<Rightarrow> Some (Thrown m, r2)
              | (p, r2) \<Rightarrow>
                  (let r3 = tabDelay w (timing_of r2) r2
                   in if stopRequested r3 then Some (Break, r3)
                      else if \<not> pageOpen r3 then Some (Continue, r3)
                      else (case p of
                              ReadThrows m \<Rightarrow> Some (Thrown m, r3)
                            | Post pd \<Rightarrow>
                                if postId pd = [] then Some (Continue, r3)
                                else processPost w maxActions (timing_of r2) pd r3
                            | _ \<Rightarrow> Some (Continue, r3))))))"

text \<open>One pass through the \<open>try\<close> and its \<open>catch\<close>.\<close>

definition iteration :: "world \<Rightarrow> jsnum \<Rightarrow> runner \<Rightarrow> (completion \<times> runner) option" where
  "iteration w maxActions r =
    (case tryBody w maxActions r of
       None \<Rightarrow> None
     | Some (Thrown m, r1) \<Rightarrow> Some (if closure_message m then Break else Continue, r1)
     | Some (c, r1) \<Rightarrow> Some (c, r1))"

text \<open>
  A run of the loop \<open>while (this.keyboardLoopActive && !this.stopRequested)\<close> for at most
  \<open>n\<close> passes: the loop has ended (with the error thrown out of it, if any), it is still
  running after \<open>n\<close> passes, or it is inside a pause wait or an advance that never ends.
\<close>

datatype run_result = Exited "string option" runner | Running runner | Blocked runner

fun keyboardLoop :: "nat \<Rightarrow> world \<Rightarrow> jsnum \<Rightarrow> runner \<Rightarrow> run_result" where
  "keyboardLoop n w maxActions r =
    (if \<not> (keyboardLoopActive r \<and> \<not> stopRequested r) then Exited None r
     else case n of
            0 \<Rightarrow> Running r
          | Suc k \<Rightarrow>
              (case pauseWait w r of
                 None \<Rightarrow> Blocked r
               | Some (Some m, r1) \<Rightarrow> Exited (Some m) r1
               | Some (None, r1) \<Rightarrow>
                   if \<not> keyboardLoopActive r1 \<or> stopRequested r1 then Exited None r1
                   else (case iteration w maxActions r1 of
                           None \<Rightarrow> Blocked r1
                         | Some (Break, r2) \<Rightarrow> Exited None r2
                         | Some (c, r2) \<Rightarrow> keyboardLoop k w maxActions r2)))"

declare keyboardLoop.simps [simp del]


section \<open>Example environments\<close>

text \<open>The error types that the \<open>catch\<close> block of the request client assigns.\<close>

definition error_types :: "string list" where
  "error_types = [''TIMEOUT'', ''DNS_FAILURE'', ''CONNECTION_REFUSED'', ''CONNECTION_RESET'',
     ''NETWORK_TIMEOUT'', ''BROKEN_PIPE'', ''SSL_ERROR'', ''FETCH_FAILED'', ''UNKNOWN'']"

definition example_builtins :: platform where
  "example_builtins =
    \<lparr>json_stringify = (\<lambda>v. Inr ''{}''),
     json_parse = (\<lambda>s. if s = ''{\"engage\":\"NO\"}'' then Inr (JObj [(''engage'', JStr ''NO'')])
                        else if s = ''{\"Engage\":\"Yes\"}'' then Inr (JObj [(''Engage'', JStr ''Yes'')])
                        else if s = ''{\"postId\":\"7\"}'' then Inr (JObj [(''postId'', JStr ''7'')])
                        else Inl ''Unexpected token''),
     url_hostname = (\<lambda>u. Some ''n8n.example'')\<rparr>"

text \<open>A platform whose parser reads two answers with a verdict that is not a string.\<close>

definition typed_builtins :: platform where
  "typed_builtins =
    \<lparr>json_stringify = (\<lambda>v. Inr ''{}''),
     json_parse = (\<lambda>s. if s = ''{\"engage\":false}'' then Inr (JObj [(''engage'', JBool False)])
                        else if s = ''{\"engage\":5}'' then Inr (JObj [(''engage'', JNum (Fin 5))])
                        else Inl ''Unexpected token''),
     url_hostname = (\<lambda>u. Some ''n8n.example'')\<rparr>"

definition example_request :: request where
  "example_request = \<lparr>url = ''https://n8n.example/webhook'',
     payload = JObj [(''outer_html'', JStr ''<div>'')], timeout = 180000\<rparr>"

definition http_500 :: request_env where
  "http_500 = \<lparr>latency = 10,
     fetched = Resolves \<lparr>status = 500, statusText = ''Internal Server Error'', body = Inr ''oops''\<rparr>\<rparr>"

definition answers :: "string \<Rightarrow> request_env" where
  "answers text = \<lparr>latency = 10,
     fetched = Resolves \<lparr>status = 200, statusText = ''OK'', body = Inr text\<rparr>\<rparr>"

definition example_post :: "string \<Rightarrow> postData" where
  "example_post i = \<lparr>postId = i, postHTML = ''<div>'', postContent = [], authorName = [],
     outerHTML = None\<rparr>"

text \<open>A session that has been started, in optimize mode with a webhook, or in default mode.\<close>

definition started_runner :: runner where
  "started_runner = new_runner\<lparr>isRunning := True, sessionId := Some ''session-1'',
     pageOpen := True, contextOpen := True, browserOpen := True\<rparr>"

definition optimizing_runner :: runner where
  "optimizing_runner = started_runner\<lparr>optimizeEngagement := True,
     postAnalysisWebhook := Some ''https://n8n.example/webhook''\<rparr>"


text \<open>
  A feed on which the focus alternates between post A and post B and every engagement
  posts its comment at once.
\<close>

definition alternating_world :: world where
  "alternating_world = \<lparr>probe = (\<lambda>k. if even k then Post (example_post ''A'') else Post (example_post ''B'')),
     request_at = (\<lambda>k. http_500),
     engagement = (\<lambda>k. (True, 0)),
     random = (\<lambda>k. 0),
     builtins = example_builtins,
     minActionDelay = 1000, maxActionDelay = 1000\<rparr>"

text \<open>A timing with a cool-down of 5000 ms and no delay after the Tab key.\<close>

definition fixed_cooldown :: timing where
  "fixed_cooldown = defaults_timing\<lparr>tabDelayMin := 0, tabDelayMax := 0,
     cooldownMin := 5000, cooldownMax := 5000\<rparr>"

text \<open>
  A session with the loop active at clock 0, to which a pause call comes at 1000 ms and a
  resume call at 11000 ms.
\<close>

definition paused_at_1000 :: runner where
  "paused_at_1000 = started_runner\<lparr>keyboardLoopActive := True, timing := Some fixed_cooldown,
     pending := [(1000, Pause), (11000, Resume)]\<rparr>"


text \<open>A session with the loop active at clock 0 and no lifecycle call to come.\<close>

definition active_runner :: runner where
  "active_runner = started_runner\<lparr>keyboardLoopActive := True, timing := Some fixed_cooldown\<rparr>"

section \<open>Predicates used in the statements\<close>

text \<open>
  The answers to a focus probe that end the advance past the post \<open>cur\<close>: an error thrown
  by the page, or a post with another, non-empty identifier.
\<close>

fun ends_advance :: "string \<Rightarrow> probe \<Rightarrow> bool" where
  "ends_advance cur (PressThrows m) = True"
| "ends_advance cur (ReadThrows m) = True"
| "ends_advance cur NoPost = False"
| "ends_advance cur (Post pd) = (postId pd \<noteq> [] \<and> postId pd \<noteq> cur)"

text \<open>
  The identifiers for which the recorded calls show an engagement, a decision request
  and an addition to \<open>seenPostIds\<close>, in the order of the calls.
\<close>

fun acted :: "event list \<Rightarrow> string list" where
  "acted [] = []"
| "acted (Act i # es) = i # acted es"
| "acted (e # es) = acted es"

fun decided :: "event list \<Rightarrow> string list" where
  "decided [] = []"
| "decided (Decide i # es) = i # decided es"
| "decided (e # es) = decided es"

fun marked :: "event list \<Rightarrow> string list" where
  "marked [] = []"
| "marked (MarkSeen i # es) = i # marked es"
| "marked (e # es) = marked es"




text \<open>
  What the loop does to the runner, as a sequence of primitive steps: \<open>steps ps r r'\<close> when
  \<open>r'\<close> comes from \<open>r\<close> by waits, HUD updates, log entries, counter and cache updates and
  recorded key presses, detections and cool-downs, and by the additions to \<open>seenPostIds\<close>,
  decision requests and engagements listed in \<open>ps\<close>, an identifier being added only
  when the page is open and the identifier is not in the set.
\<close>

inductive steps :: "event list \<Rightarrow> runner \<Rightarrow> runner \<Rightarrow> bool" where
  same: "steps [] r r"
| wait: "steps ps r r1 \<Longrightarrow> steps ps r (await_ms d r1)"
| hud: "steps ps r r1 \<Longrightarrow> steps ps r (updateHUD u r1)"
| logged: "steps ps r r1 \<Longrightarrow> steps ps r (logger lv m dt r1)"
| press: "steps ps r r1 \<Longrightarrow> steps ps r (record_event (TabPress t) r1)"
| detect: "steps ps r r1 \<Longrightarrow> steps ps r (record_event (Detected i) r1)"
| cool: "steps ps r r1 \<Longrightarrow> steps ps r (record_event (Cooldown t d) r1)"
| probes: "steps ps r r1 \<Longrightarrow> steps ps r (r1\<lparr>nProbe := n\<rparr>)"
| draws: "steps ps r r1 \<Longrightarrow> steps ps r (r1\<lparr>nRand := n\<rparr>)"
| requests: "steps ps r r1 \<Longrightarrow> steps ps r (r1\<lparr>nDecide := n\<rparr>)"
| engagements: "steps ps r r1 \<Longrightarrow> steps ps r (r1\<lparr>nEngage := n\<rparr>)"
| counted: "steps ps r r1 \<Longrightarrow> steps ps r (r1\<lparr>sessionStats := s\<rparr>)"
| cached: "steps ps r r1 \<Longrightarrow> steps ps r (r1\<lparr>domCache := c\<rparr>)"
| mark: "steps ps r r1 \<Longrightarrow> pageOpen r1 \<Longrightarrow> i \<notin> seenPostIds r1 \<Longrightarrow>
         steps (ps @ [MarkSeen i]) r
           (record_event (MarkSeen i) (r1\<lparr>seenPostIds := insert i (seenPostIds r1)\<rparr>))"
| decide: "steps ps r r1 \<Longrightarrow> steps (ps @ [Decide i]) r (record_event (Decide i) r1)"
| act: "steps ps r r1 \<Longrightarrow> steps (ps @ [Act i]) r (record_event (Act i) r1)"


text \<open>
  What one pass of the loop adds to the pipeline events for the item \<open>i\<close>: nothing, or
  the addition to \<open>seenPostIds\<close> followed by a decision request, an engagement, or both
  in this order.
\<close>

definition pass_events :: "string \<Rightarrow> event list \<Rightarrow> bool" where
  "pass_events i ps =
    (ps = [] \<or> ps = [MarkSeen i, Act i] \<or> ps = [MarkSeen i, Decide i]
     \<or> ps = [MarkSeen i, Decide i, Act i])"


text \<open>
  The runner without what it reports: the HUD state and the log are put back to their
  initial values, every other field is kept.
\<close>

definition without_reports :: "runner \<Rightarrow> runner" where
  "without_reports r = r\<lparr>hudState := hudState new_runner, log := []\<rparr>"

text \<open>
  Two passes, or parts of a pass, go the same way when both never end, or both end with the
  same completion in states that differ at most in the HUD state and the log.
\<close>

definition same_step :: "('a \<times> runner) option \<Rightarrow> ('a \<times> runner) option \<Rightarrow> bool" where
  "same_step x y =
    (case (x, y) of
       (None, None) \<Rightarrow> True
     | (Some (c, s), Some (c', s')) \<Rightarrow> c = c' \<and> without_reports s = without_reports s'
     | _ \<Rightarrow> False)"

text \<open>
  Two runs of the loop have the same outcome when they end in the same way, with the same
  error if any, in states that differ at most in the HUD state and the log.
\<close>

fun same_outcome :: "run_result \<Rightarrow> run_result \<Rightarrow> bool" where
  "same_outcome (Exited m r) (Exited m' r') = (m = m' \<and> without_reports r = without_reports r')"
| "same_outcome (Running r) (Running r') = (without_reports r = without_reports r')"
| "same_outcome (Blocked r) (Blocked r') = (without_reports r = without_reports r')"
| "same_outcome res res' = False"

text \<open>
  The answers to a focus probe in which a page command throws with the message of a closed
  page, context or browser, and the completions of a pass after which the loop goes on:
  all but a \<open>break\<close> and an error with such a message.
\<close>

fun closes :: "probe \<Rightarrow> bool" where
  "closes (PressThrows m) = closure_message m"
| "closes (ReadThrows m) = closure_message m"
| "closes p = False"

fun goes_on :: "completion \<Rightarrow> bool" where
  "goes_on Continue = True"
| "goes_on Break = False"
| "goes_on (Thrown m) = (\<not> closure_message m)"

fun exited :: "run_result \<Rightarrow> bool" where
  "exited (Exited m r) = True"
| "exited res = False"

text \<open>
  A session in which the loop is active, the stop flag is not set, the page is open and no
  stop call is still to arrive.
\<close>

definition undisturbed :: "runner \<Rightarrow> bool" where
  "undisturbed r =
    (keyboardLoopActive r \<and> \<not> stopRequested r \<and> pageOpen r \<and> Stop \<notin> snd ` set (pending r))"
section \<open>Properties of getThresholds\<close>

lemma truthy_js_or_obj: "truthy (js_or a (JObj kvs))"
  by (simp add: js_or_def)

lemma get_prop_truthy: "truthy v \<Longrightarrow> \<exists>x. get_prop v k = Some x"
  by (cases v) auto

lemma num_or_not_NaN: "num_or a (Fin 10) \<noteq> NaN"
  by (cases a) (auto simp: num_or_def)

lemma math_max_ge_one: "n \<noteq> NaN \<Longrightarrow> num_ge_one (math_max (Fin 1) n)"
  by (cases n) auto

text \<open>
  C10. \<open>getThresholds\<close> never throws and returns an object whose only property is
  \<open>maxActions\<close>, a number that is at least 1, whatever the configured thresholds, the
  environment variables and the results of \<open>parseInt\<close> are. The configured \<open>minLikes\<close>,
  \<open>minComments\<close> and \<open>minReposts\<close> are not in the returned object.
\<close>

theorem getThresholds_only_maxActions_at_least_one:
  "\<exists>n r'. getThresholds parseInt env r = Inr ([(''maxActions'', JNum n)], r') \<and> num_ge_one n"
proof -
  obtain original where o: "get_prop (js_or (thresholds r) (JObj
           [(''minLikes'', js_or (JNum (parseInt (env_val env ''MIN_REACTIONS_THRESHOLD''))) JUndefined),
            (''minComments'', js_or (JNum (parseInt (env_val env ''MIN_COMMENTS_THRESHOLD''))) JUndefined),
            (''minReposts'', js_or (JNum (parseInt (env_val env ''MIN_REPOSTS_THRESHOLD''))) JUndefined),
            (''maxActions'', js_or (JNum (parseInt (env_val env ''MAX_COMMENTS_PER_SESSION''))) defaults_maxActions)]))
         ''maxActions'' = Some original"
    using get_prop_truthy [OF truthy_js_or_obj] by blast
  have "num_ge_one (math_max (Fin 1) (num_or (parseInt original) (Fin 10)))"
    by (rule math_max_ge_one [OF num_or_not_NaN])
  then show ?thesis
    by (simp add: getThresholds_def o Let_def)
qed

text \<open>
  The theorem at the configured values 0, -5, a non-numeric string, 7 and a threshold
  object that also carries \<open>minLikes\<close>: the results are 10, 1, 10, 7 and 10.
\<close>

theorem getThresholds_only_maxActions_at_least_one_witness:
  "map (\<lambda>v. map_sum id fst (getThresholds parseInt_example (\<lambda>k. None) (new_runner\<lparr>thresholds := v\<rparr>)))
     [JObj [(''maxActions'', JNum (Fin 0))], JObj [(''maxActions'', JNum (Fin (- 5)))],
      JObj [(''maxActions'', JStr ''abc'')], JObj [(''maxActions'', JStr ''7'')],
      JObj [(''minLikes'', JNum (Fin 3)), (''maxActions'', JUndefined)]]
   = [Inr [(''maxActions'', JNum (Fin 10))], Inr [(''maxActions'', JNum (Fin 1))],
      Inr [(''maxActions'', JNum (Fin 10))], Inr [(''maxActions'', JNum (Fin 7))],
      Inr [(''maxActions'', JNum (Fin 10))]]"
  using getThresholds_only_maxActions_at_least_one [of parseInt_example "\<lambda>k. None" new_runner]
  by (simp add: getThresholds_def parseInt_example_def new_runner_def js_or_def num_or_def
        Let_def logger_def)

section \<open>Properties of the navigation retries\<close>

lemma attempt_try_not_ready: "\<not> ready e \<Longrightarrow> \<exists>m. attempt_try e = Some m"
  by (simp add: attempt_try_def split: option.splits)

lemma trace_updateHUD [simp]: "trace (updateHUD f r) = trace r"
  by (simp add: updateHUD_def)

lemma navigate_from_exhausted:
  "MAX_ATTEMPTS < attempt \<Longrightarrow>
   navigate_from resolve w runsDir attempt arts r = Inr (NavFailure nav_hint arts, r)"
  by (subst navigate_from.simps) simp

lemma navigate_from_last:
  assumes "attempt \<le> MAX_ATTEMPTS" "\<not> attempt < MAX_ATTEMPTS" "\<not> ready (w attempt)"
  shows "\<exists>r'. navigate_from resolve w runsDir attempt arts r =
     Inr (NavFailure nav_hint (arts @ captured resolve runsDir (w attempt) attempt), r')
     \<and> trace r' = trace r @ [Goto attempt]"
proof -
  obtain m where m: "attempt_try (w attempt) = Some m"
    using attempt_try_not_ready [OF assms(3)] by blast
  show ?thesis
    using assms(1,2) m
    by (subst navigate_from.simps)
       (auto simp: Let_def navigate_from_exhausted record_event_def)
qed

lemma navigate_from_retry:
  assumes "attempt < MAX_ATTEMPTS" "\<not> ready (w attempt)" "backoff_throws (w attempt) = None"
    and "nxt = attempt + 1" and "d = BACKOFF_DELAYS ! (attempt - 1)"
  shows "\<exists>r1. navigate_from resolve w runsDir attempt arts r =
     navigate_from resolve w runsDir nxt (arts @ captured resolve runsDir (w attempt) attempt) r1
     \<and> trace r1 = trace r @ [Goto attempt, Backoff d]"
proof -
  obtain m where m: "attempt_try (w attempt) = Some m"
    using attempt_try_not_ready [OF assms(2)] by blast
  show ?thesis
    using assms(1,3,4,5) m
    by (subst navigate_from.simps)
       (auto simp: Let_def record_event_def)
qed

lemma length_captured:
  "length (captured resolve runsDir e k) = length (filter id [screenshot_ok e, trace_ok e])"
  by (simp add: captured_def)

text \<open>
  C3, as the code has it. If the readiness check fails on every attempt and neither
  backoff wait throws, the function makes exactly the three navigation attempts 1, 2, 3,
  sleeps 2000 ms after the first and 4000 ms after the second and not after the third,
  and returns the failure result with the hint. The artifact list holds one entry for
  every capture that succeeded, a screenshot and a trace per attempt: as many entries as
  captures succeeded, at most six.
\<close>

theorem navigation_always_failing:
  assumes nr: "\<not> ready (w 1)" "\<not> ready (w 2)" "\<not> ready (w 3)"
    and bo: "backoff_throws (w 1) = None" "backoff_throws (w 2) = None"
  shows "\<exists>arts r'.
      navigateToLinkedInWithRetries resolve w runsDir r = Inr (NavFailure nav_hint arts, r')
    \<and> trace r' = trace r @ [Goto 1, Backoff 2000, Goto 2, Backoff 4000, Goto 3]
    \<and> arts = captured resolve runsDir (w 1) 1 @ captured resolve runsDir (w 2) 2
              @ captured resolve runsDir (w 3) 3
    \<and> length arts = length (filter id [screenshot_ok (w 1), trace_ok (w 1), screenshot_ok (w 2),
                                       trace_ok (w 2), screenshot_ok (w 3), trace_ok (w 3)])
    \<and> length arts \<le> 6"
proof -
  have "\<exists>r1. navigate_from resolve w runsDir 1 [] r =
      navigate_from resolve w runsDir 2 ([] @ captured resolve runsDir (w 1) 1) r1
      \<and> trace r1 = trace r @ [Goto 1, Backoff 2000]"
    by (rule navigate_from_retry) (insert nr bo, simp_all add: MAX_ATTEMPTS_def BACKOFF_DELAYS_def)
  then obtain r1 where s1: "navigate_from resolve w runsDir 1 [] r =
      navigate_from resolve w runsDir 2 ([] @ captured resolve runsDir (w 1) 1) r1"
      and t1: "trace r1 = trace r @ [Goto 1, Backoff 2000]"
    by blast
  have "\<exists>r2. navigate_from resolve w runsDir 2 ([] @ captured resolve runsDir (w 1) 1) r1 =
      navigate_from resolve w runsDir 3
        (([] @ captured resolve runsDir (w 1) 1) @ captured resolve runsDir (w 2) 2) r2
      \<and> trace r2 = trace r1 @ [Goto 2, Backoff 4000]"
    by (rule navigate_from_retry) (insert nr bo, simp_all add: MAX_ATTEMPTS_def BACKOFF_DELAYS_def)
  then obtain r2 where s2: "navigate_from resolve w runsDir 2 ([] @ captured resolve runsDir (w 1) 1) r1 =
      navigate_from resolve w runsDir 3
        (([] @ captured resolve runsDir (w 1) 1) @ captured resolve runsDir (w 2) 2) r2"
      and t2: "trace r2 = trace r1 @ [Goto 2, Backoff 4000]"
    by blast
  have "\<exists>r3. navigate_from resolve w runsDir 3
        (([] @ captured resolve runsDir (w 1) 1) @ captured resolve runsDir (w 2) 2) r2 =
      Inr (NavFailure nav_hint
        ((([] @ captured resolve runsDir (w 1) 1) @ captured resolve runsDir (w 2) 2)
           @ captured resolve runsDir (w 3) 3), r3)
      \<and> trace r3 = trace r2 @ [Goto 3]"
    by (rule navigate_from_last) (insert nr, simp_all add: MAX_ATTEMPTS_def)
  then obtain r3 where s3: "navigate_from resolve w runsDir 3
        (([] @ captured resolve runsDir (w 1) 1) @ captured resolve runsDir (w 2) 2) r2 =
      Inr (NavFailure nav_hint
        ((([] @ captured resolve runsDir (w 1) 1) @ captured resolve runsDir (w 2) 2)
           @ captured resolve runsDir (w 3) 3), r3)"
      and t3: "trace r3 = trace r2 @ [Goto 3]"
    by blast
  have le: "\<And>e k. length (captured resolve runsDir e k) \<le> 2"
    by (simp add: captured_def)
  have "navigateToLinkedInWithRetries resolve w runsDir r =
      Inr (NavFailure nav_hint (captured resolve runsDir (w 1) 1 @ captured resolve runsDir (w 2) 2
             @ captured resolve runsDir (w 3) 3), r3)"
    unfolding navigateToLinkedInWithRetries_def s1 s2 s3 by simp
  moreover have "trace r3 = trace r @ [Goto 1, Backoff 2000, Goto 2, Backoff 4000, Goto 3]"
    by (simp add: t1 t2 t3)
  ultimately show ?thesis
    using le [of "w 1" 1] le [of "w 2" 2] le [of "w 3" 3]
    by (simp add: length_captured)
qed

text \<open>
  The theorem where every capture succeeds: three attempts, the two sleeps, and six
  artifact entries, a screenshot and a trace for each attempt.
\<close>

theorem navigation_always_failing_witness:
  "\<not> ready (always_fail 1) \<and> \<not> ready (always_fail 2) \<and> \<not> ready (always_fail 3)
   \<and> backoff_throws (always_fail 1) = None \<and> backoff_throws (always_fail 2) = None
   \<and> (\<exists>arts r'. navigateToLinkedInWithRetries id always_fail ''runs/s1'' (new_runner\<lparr>pageOpen := True\<rparr>)
          = Inr (NavFailure nav_hint arts, r')
        \<and> trace r' = [Goto 1, Backoff 2000, Goto 2, Backoff 4000, Goto 3]
        \<and> map (\<lambda>a. (a_type a, a_attempt a)) arts =
            [(''screenshot'', 1), (''trace'', 1), (''screenshot'', 2), (''trace'', 2),
             (''screenshot'', 3), (''trace'', 3)])"
  using navigation_always_failing [of always_fail id "''runs/s1''" "new_runner\<lparr>pageOpen := True\<rparr>"]
  by (auto simp: always_fail_def captured_def new_runner_def)

text \<open>
  C3 as stated fails: with the readiness check failing on every attempt and every capture
  succeeding, the failure result holds six artifact entries, not three.
\<close>

theorem navigation_six_artifacts:
  "(case navigateToLinkedInWithRetries id always_fail ''runs/s1'' (new_runner\<lparr>pageOpen := True\<rparr>) of
      Inr (NavFailure h arts, r') \<Rightarrow> length arts | _ \<Rightarrow> 0) = 6"
  by (simp add: navigateToLinkedInWithRetries_def navigate_from.simps always_fail_def
        attempt_try_def MAX_ATTEMPTS_def captured_def Let_def)

section \<open>Properties of stop\<close>

text \<open>
  What the first definition of \<open>stop()\<close> does on a session with a browser context and a
  session identifier, when the trace can be saved: the stop flag is set, the trace is
  written, and the result carries the statistics and the resolved trace path.
\<close>

lemma stop_first_finalizes:
  assumes "contextOpen r" "sessionId r = Some s" "s \<noteq> []" "trace_saves env"
  shows "stopRequested (snd (stop_first resolve runs env r))
    \<and> trace (snd (stop_first resolve runs env r)) =
        trace r @ [TraceSaved (path_join (path_join runs s) ''trace.zip'')]
    \<and> s_stats (fst (stop_first resolve runs env r)) = sessionStats r
    \<and> (\<exists>a. s_artifacts (fst (stop_first resolve runs env r)) = Some a
          \<and> traceFile a = Some (resolve (path_join (path_join runs s) ''trace.zip'')))"
  using assms
  by (simp add: stop_first_def Let_def cleanup_def resetStats_def sessionId_truthy_def
        record_event_def)

text \<open>
  C4 on the code. The \<open>stop()\<close> that a call runs is the second definition: it returns the
  final statistics, but its result has no \<open>artifacts\<close> and no \<open>sessionId\<close>, it leaves
  \<open>stopRequested\<close> as it was (it clears \<open>keyboardLoopActive\<close>), and it does not write the
  trace.
\<close>

theorem stop_returns_no_artifacts:
  "s_artifacts (fst (stop r)) = None \<and> s_sessionId (fst (stop r)) = None
   \<and> s_stats (fst (stop r)) = sessionStats r
   \<and> stopRequested (snd (stop r)) = stopRequested r
   \<and> \<not> keyboardLoopActive (snd (stop r))
   \<and> trace (snd (stop r)) = trace r"
  by (simp add: stop_def stop_second_def Let_def cleanup_def resetStats_def cleanupTempData_def)

section \<open>Properties of the outbound request client\<close>

lemma log_api_call [simp]: "log (api_call c r) = log r"
  by (cases c) (simp_all add: api_call_def stop_def stop_second_def Let_def cleanup_def
      resetStats_def cleanupTempData_def pause_def resume_def)

lemma log_foldl_api_call: "log (foldl (\<lambda>r' (at, c). api_call c r') r xs) = log r"
  by (induction xs arbitrary: r) (auto split: prod.splits)

lemma log_await_ms [simp]: "log (await_ms d r) = log r"
  by (simp add: await_ms_def Let_def log_foldl_api_call)

lemma errorType_listed: "errorType e \<in> set error_types"
  unfolding errorType_def error_types_def by (simp only: list.set) (simp split: if_splits)

lemma request_try_non_ok:
  assumes "latency w < timeout req" "fetched w = Resolves resp" "\<not> response_ok resp"
  shows "\<exists>r1. request_try pf w req r =
      (Inl (new_Error (''HTTP '' @ show_nat (status resp) @ '': '' @ statusText resp)), r1)
    \<and> log r1 = log r @ [(LError, ''Webhook HTTP error'',
         [(''status'', JNum (Fin (int (status resp)))), (''statusText'', JStr (statusText resp)),
          (''url'', JStr (url req)),
          (''responseBody'',
             (case body resp of Inr responseText \<Rightarrow> JStr (take 500 responseText)
                              | Inl e \<Rightarrow> JUndefined))])]"
  using assms
  by (cases "body resp") (simp_all add: request_try_def Let_def logger_def)

lemma request_catch_logs:
  assumes "url_hostname pf (url req) \<noteq> None"
  shows "request_catch pf req error r =
     (error, r\<lparr>log := log r @ [(LError, ''Webhook request failed with detailed diagnostics'',
             [(''url'', JStr (url req)), (''timeout'', JNum (Fin (int (timeout req)))),
              (''errorName'', JStr (e_name error)), (''errorMessage'', JStr (e_message error)),
              (''errorType'', JStr (errorType error))])]\<rparr>)"
  using assms
  by (cases "url_hostname pf (url req)") (simp_all add: request_catch_def logger_def)

text \<open>
  C5, as the code has it. For a request whose payload serialises and whose URL parses:
  a non-2xx response becomes the thrown error \<open>HTTP <status>: <statusText>\<close> only after
  the body has been read, the log entry before the throw holding the first 500
  characters of the body text when the read succeeded (\<open>undefined\<close> when it failed); and
  every error that leaves the function has been logged just before with its name, its
  message and its error type, which is one of \<open>TIMEOUT\<close>, \<open>DNS_FAILURE\<close>,
  \<open>CONNECTION_REFUSED\<close>, \<open>CONNECTION_RESET\<close>, \<open>NETWORK_TIMEOUT\<close>, \<open>BROKEN_PIPE\<close>, \<open>SSL_ERROR\<close>,
  \<open>FETCH_FAILED\<close> and the default \<open>UNKNOWN\<close>.
\<close>

theorem webhook_failures_logged:
  assumes ser: "json_stringify pf (payload req) = Inr ps"
    and host: "url_hostname pf (url req) \<noteq> None"
  shows "(latency w < timeout req \<and> fetched w = Resolves resp \<and> \<not> response_ok resp \<longrightarrow>
            (\<exists>r'. executeWebhookRequest pf w req r =
                (Inl (new_Error (''HTTP '' @ show_nat (status resp) @ '': '' @ statusText resp)), r')
             \<and> (\<exists>d1 d2. log r' = log r @ [(LError, ''Webhook HTTP error'', d1),
                                (LError, ''Webhook request failed with detailed diagnostics'', d2)]
                  \<and> own_prop d1 ''responseBody'' =
                      (case body resp of Inr responseText \<Rightarrow> JStr (take 500 responseText)
                                       | Inl e \<Rightarrow> JUndefined))))
       \<and> (\<forall>e r'. executeWebhookRequest pf w req r = (Inl e, r') \<longrightarrow>
            (\<exists>entries d. log r' = entries @ [(LError, ''Webhook request failed with detailed diagnostics'', d)]
               \<and> own_prop d ''errorName'' = JStr (e_name e)
               \<and> own_prop d ''errorMessage'' = JStr (e_message e)
               \<and> own_prop d ''errorType'' = JStr (errorType e)
               \<and> errorType e \<in> set error_types))"
proof (intro conjI impI allI)
  assume a: "latency w < timeout req \<and> fetched w = Resolves resp \<and> \<not> response_ok resp"
  then obtain r1 where t: "request_try pf w req r =
      (Inl (new_Error (''HTTP '' @ show_nat (status resp) @ '': '' @ statusText resp)), r1)"
    and l: "log r1 = log r @ [(LError, ''Webhook HTTP error'',
         [(''status'', JNum (Fin (int (status resp)))), (''statusText'', JStr (statusText resp)),
          (''url'', JStr (url req)),
          (''responseBody'',
             (case body resp of Inr responseText \<Rightarrow> JStr (take 500 responseText)
                              | Inl e \<Rightarrow> JUndefined))])]"
    using request_try_non_ok [of w req resp pf r] by blast
  show "\<exists>r'. executeWebhookRequest pf w req r =
                (Inl (new_Error (''HTTP '' @ show_nat (status resp) @ '': '' @ statusText resp)), r')
             \<and> (\<exists>d1 d2. log r' = log r @ [(LError, ''Webhook HTTP error'', d1),
                                (LError, ''Webhook request failed with detailed diagnostics'', d2)]
                  \<and> own_prop d1 ''responseBody'' =
                      (case body resp of Inr responseText \<Rightarrow> JStr (take 500 responseText)
                                       | Inl e \<Rightarrow> JUndefined))"
    by (simp add: executeWebhookRequest_def ser t request_catch_logs [OF host] l)
next
  fix e r'
  assume ex: "executeWebhookRequest pf w req r = (Inl e, r')"
  obtain res r1 where t: "request_try pf w req r = (res, r1)"
    by (cases "request_try pf w req r")
  from ex t obtain error where res: "res = Inl error"
    by (cases res) (simp_all add: executeWebhookRequest_def ser)
  from ex t res have "e = error" and
    "r' = r1\<lparr>log := log r1 @ [(LError, ''Webhook request failed with detailed diagnostics'',
             [(''url'', JStr (url req)), (''timeout'', JNum (Fin (int (timeout req)))),
              (''errorName'', JStr (e_name error)), (''errorMessage'', JStr (e_message error)),
              (''errorType'', JStr (errorType error))])]\<rparr>"
    by (auto simp: executeWebhookRequest_def ser request_catch_logs [OF host])
  then show "\<exists>entries d. log r' = entries @ [(LError, ''Webhook request failed with detailed diagnostics'', d)]
               \<and> own_prop d ''errorName'' = JStr (e_name e)
               \<and> own_prop d ''errorMessage'' = JStr (e_message e)
               \<and> own_prop d ''errorType'' = JStr (errorType e)
               \<and> errorType e \<in> set error_types"
    using errorType_listed [of error] by simp
qed

lemmas example_defs = example_builtins_def http_500_def example_request_def answers_def
  example_post_def started_runner_def optimizing_runner_def new_runner_def

text \<open>
  The theorem at a response with status 500 and body \<open>oops\<close>: the body is in the log
  entry before the throw, and the error is logged with the error type \<open>UNKNOWN\<close>.
\<close>

theorem webhook_failures_logged_witness:
  "json_stringify example_builtins (payload example_request) = Inr ''{}''
   \<and> url_hostname example_builtins (url example_request) \<noteq> None
   \<and> latency http_500 < timeout example_request
   \<and> fetched http_500 = Resolves \<lparr>status = 500, statusText = ''Internal Server Error'', body = Inr ''oops''\<rparr>
   \<and> \<not> response_ok \<lparr>status = 500, statusText = ''Internal Server Error'', body = Inr ''oops''\<rparr>
   \<and> (\<exists>r'. executeWebhookRequest example_builtins http_500 example_request started_runner =
            (Inl (new_Error ''HTTP 500: Internal Server Error''), r')
          \<and> (\<exists>d1 d2. log r' = [(LError, ''Webhook HTTP error'', d1),
                               (LError, ''Webhook request failed with detailed diagnostics'', d2)]
                \<and> own_prop d1 ''responseBody'' = JStr ''oops''
                \<and> own_prop d2 ''errorType'' = JStr ''UNKNOWN''))"
  using webhook_failures_logged [of example_builtins example_request "''{}''" http_500
      "\<lparr>status = 500, statusText = ''Internal Server Error'', body = Inr ''oops''\<rparr>" started_runner]
  by (simp add: example_defs response_ok_def show_nat.simps errorType_def new_Error_def
        startsWith_def executeWebhookRequest_def request_try_def request_catch_def await_ms_def
        Let_def logger_def)

text \<open>
  C5 as stated fails: the failure of a request that meets a response with status 500 is
  given the error type \<open>UNKNOWN\<close>, which is none of the documented kinds.
\<close>

theorem http_error_classified_unknown:
  "(case executeWebhookRequest example_builtins http_500 example_request started_runner of
      (res, r') \<Rightarrow> (res, map (\<lambda>(lv, msg, d). (msg, own_prop d ''errorType'')) (log r')))
   = (Inl (new_Error ''HTTP 500: Internal Server Error''),
      [(''Webhook HTTP error'', JUndefined),
       (''Webhook request failed with detailed diagnostics'', JStr ''UNKNOWN'')])"
  by (simp add: executeWebhookRequest_def example_defs request_try_def request_catch_def
      await_ms_def Let_def response_ok_def logger_def show_nat.simps errorType_def new_Error_def
      startsWith_def)

section \<open>Properties of the decision client\<close>

lemma checkEngagementDecision_call:
  assumes "postAnalysisWebhook r = Some webhook" "webhook \<noteq> []" "fresh_verdict pd r = None"
  shows "checkEngagementDecision pf w pd r =
    (case executeWebhookRequest pf w
            \<lparr>url = webhook, payload = JObj [(''outer_html'', JStr (outer_html pd))], timeout = 180000\<rparr>
            (updateHUD (\<lambda>h. h\<lparr>hud_postId := postId pd, hud_action := ''Waiting for AI analysis...'',
                                 hud_engage := ''Pending...''\<rparr>) r) of
       (Inl error, r2) \<Rightarrow> (fail_open, r2)
     | (Inr result, r2) \<Rightarrow>
         (case normalizeResult result pd of
            None \<Rightarrow> (fail_open, r2)
          | Some normalizedResult \<Rightarrow>
              (normalizedResult,
               r2\<lparr>domCache := cache_set (cacheKey pd) (normalizedResult, clock r2) (domCache r2)\<rparr>)))"
  using assms
  by (simp add: checkEngagementDecision_def Let_def)

lemma checkEngagementDecision_unconfigured:
  "postAnalysisWebhook r = None \<or> postAnalysisWebhook r = Some [] \<Longrightarrow>
   checkEngagementDecision pf w pd r = (fail_open, r)"
  by (auto simp: checkEngagementDecision_def)

lemma request_try_fails:
  assumes "timeout req \<le> latency w
         \<or> (\<exists>e. fetched w = Rejects e)
         \<or> (\<exists>resp. fetched w = Resolves resp \<and>
               (\<not> response_ok resp
                \<or> (\<exists>e. body resp = Inl e)
                \<or> (\<exists>responseText. body resp = Inr responseText \<and>
                      (trim responseText = [] \<or> (\<exists>m. json_parse pf responseText = Inl m)))))"
  shows "\<exists>e r1. request_try pf w req r = (Inl e, r1)"
  using assms
  by (auto simp: request_try_def Let_def split: fetch_outcome.splits sum.splits option.splits)

lemma executeWebhookRequest_fails:
  assumes "\<exists>e r1. request_try pf w req r = (Inl e, r1)"
  shows "\<exists>e r2. executeWebhookRequest pf w req r = (Inl e, r2)"
  using assms
  by (auto simp: executeWebhookRequest_def split: sum.splits prod.splits)

text \<open>
  C1. When no fresh verdict is cached, so that the decision service is called, and the
  call fails (the 180 s timeout passes, \<open>fetch\<close> rejects with a network error, the status
  is not 2xx, the body cannot be read, the body is empty or blank, or the body is not
  JSON), \<open>checkEngagementDecision\<close> returns the affirmative verdict.
\<close>

theorem decision_fails_open:
  assumes call: "fresh_verdict pd r = None"
    and fails: "180000 \<le> latency w
         \<or> (\<exists>e. fetched w = Rejects e)
         \<or> (\<exists>resp. fetched w = Resolves resp \<and>
               (\<not> response_ok resp
                \<or> (\<exists>e. body resp = Inl e)
                \<or> (\<exists>responseText. body resp = Inr responseText \<and>
                      (trim responseText = [] \<or> (\<exists>m. json_parse pf responseText = Inl m)))))"
  shows "engage (fst (checkEngagementDecision pf w pd r)) = ''yes''"
proof (cases "postAnalysisWebhook r = None \<or> postAnalysisWebhook r = Some []")
  case True
  then show ?thesis
    by (simp add: checkEngagementDecision_unconfigured fail_open_def)
next
  case False
  then obtain webhook where wh: "postAnalysisWebhook r = Some webhook" "webhook \<noteq> []"
    by (cases "postAnalysisWebhook r") auto
  let ?req = "\<lparr>url = webhook, payload = JObj [(''outer_html'', JStr (outer_html pd))], timeout = 180000\<rparr>"
  let ?r1 = "updateHUD (\<lambda>h. h\<lparr>hud_postId := postId pd, hud_action := ''Waiting for AI analysis...'',
                                 hud_engage := ''Pending...''\<rparr>) r"
  have "\<exists>e r1. request_try pf w ?req ?r1 = (Inl e, r1)"
    by (rule request_try_fails) (use fails in simp)
  then obtain e r2 where "executeWebhookRequest pf w ?req ?r1 = (Inl e, r2)"
    using executeWebhookRequest_fails by blast
  then show ?thesis
    by (simp add: checkEngagementDecision_call [OF wh call] fail_open_def)
qed

text \<open>The theorem in optimize mode at a response with status 500.\<close>

theorem decision_fails_open_witness:
  "fresh_verdict (example_post ''A'') optimizing_runner = None
   \<and> fetched http_500 = Resolves \<lparr>status = 500, statusText = ''Internal Server Error'', body = Inr ''oops''\<rparr>
   \<and> \<not> response_ok \<lparr>status = 500, statusText = ''Internal Server Error'', body = Inr ''oops''\<rparr>
   \<and> engage (fst (checkEngagementDecision example_builtins http_500 (example_post ''A'')
                     optimizing_runner)) = ''yes''"
  using decision_fails_open [of "example_post ''A''" optimizing_runner http_500 example_builtins]
  by (simp add: example_defs fresh_verdict_def response_ok_def)

lemma request_try_succeeds:
  assumes "latency w < timeout req" "fetched w = Resolves resp" "response_ok resp"
    "body resp = Inr responseText" "trim responseText \<noteq> []"
    "json_parse pf responseText = Inr (JObj kvs)"
  shows "\<exists>r1. request_try pf w req r = (Inr (JObj kvs), r1)"
  using assms by (auto simp: request_try_def Let_def trim_def)

lemma own_prop_absent: "k \<notin> fst ` set kvs \<Longrightarrow> own_prop kvs k = JUndefined"
  by (induction kvs) auto

text \<open>
  C9, as the code has it. When the decision service is called and answers with a JSON
  object: if the object has neither an \<open>engage\<close> nor an \<open>Engage\<close> key, the verdict is \<open>yes\<close>;
  if \<open>engage\<close> is a non-empty string, or \<open>engage\<close> is missing or falsy and \<open>Engage\<close> is a
  non-empty string, the verdict is that string in lower case, so that the comparison with
  \<open>yes\<close> does not depend on the case of the letters. A value that is present but falsy
  (\<open>false\<close>, \<open>0\<close>, the empty string, \<open>null\<close>) is passed over by \<open>||\<close> like a missing one, and
  when both are falsy the verdict is \<open>yes\<close>. A value that is truthy and not a string has no
  \<open>toLowerCase\<close>: the call throws, and the \<open>catch\<close> returns the affirmative verdict.
\<close>

theorem verdict_normalised:
  assumes call: "postAnalysisWebhook r = Some webhook" "webhook \<noteq> []" "fresh_verdict pd r = None"
    and ser: "json_stringify pf (JObj [(''outer_html'', JStr (outer_html pd))]) = Inr ps"
    and ok: "latency w < 180000" "fetched w = Resolves resp" "response_ok resp"
      "body resp = Inr responseText" "trim responseText \<noteq> []"
      "json_parse pf responseText = Inr (JObj kvs)"
  shows "(''engage'' \<notin> fst ` set kvs \<and> ''Engage'' \<notin> fst ` set kvs \<longrightarrow>
            engage (fst (checkEngagementDecision pf w pd r)) = ''yes'')
       \<and> (\<forall>v. own_prop kvs ''engage'' = JStr v \<and> v \<noteq> [] \<longrightarrow>
            engage (fst (checkEngagementDecision pf w pd r)) = toLowerCase v)
       \<and> (\<forall>v. \<not> truthy (own_prop kvs ''engage'') \<and> own_prop kvs ''Engage'' = JStr v \<and> v \<noteq> [] \<longrightarrow>
            engage (fst (checkEngagementDecision pf w pd r)) = toLowerCase v)
       \<and> (\<not> truthy (own_prop kvs ''engage'') \<and> \<not> truthy (own_prop kvs ''Engage'') \<longrightarrow>
            engage (fst (checkEngagementDecision pf w pd r)) = ''yes'')
       \<and> (truthy (js_or (own_prop kvs ''engage'') (own_prop kvs ''Engage''))
            \<and> (\<forall>v. js_or (own_prop kvs ''engage'') (own_prop kvs ''Engage'') \<noteq> JStr v) \<longrightarrow>
            fst (checkEngagementDecision pf w pd r) = fail_open)"
proof -
  let ?req = "\<lparr>url = webhook, payload = JObj [(''outer_html'', JStr (outer_html pd))], timeout = 180000\<rparr>"
  let ?r1 = "updateHUD (\<lambda>h. h\<lparr>hud_postId := postId pd, hud_action := ''Waiting for AI analysis...'',
                                 hud_engage := ''Pending...''\<rparr>) r"
  obtain r2 where "request_try pf w ?req ?r1 = (Inr (JObj kvs), r2)"
    using request_try_succeeds [of w ?req resp responseText pf kvs ?r1] ok by auto
  then have ex: "executeWebhookRequest pf w ?req ?r1 = (Inr (JObj kvs), r2)"
    by (simp add: executeWebhookRequest_def ser)
  have dec: "fst (checkEngagementDecision pf w pd r) =
      (case normalizeResult (JObj kvs) pd of None \<Rightarrow> fail_open | Some n \<Rightarrow> n)"
    by (simp add: checkEngagementDecision_call [OF call] ex split: option.splits)
  have yes: "toLowerCase ''yes'' = ''yes''"
    by (simp add: toLowerCase_def lower_char_def)
  show ?thesis
    unfolding dec
    by (auto simp: normalizeResult_def js_or_def own_prop_absent yes fail_open_def
          split: jsval.splits)
qed

text \<open>
  The theorem at five answers: an object with neither key gives \<open>yes\<close>, \<open>engage: "NO"\<close>
  gives \<open>no\<close>, \<open>Engage: "Yes"\<close> gives \<open>yes\<close>, \<open>engage: false\<close> gives \<open>yes\<close>, and
  \<open>engage: 5\<close> gives the verdict of the \<open>catch\<close>.
\<close>

theorem verdict_normalised_witness:
  "engage (fst (checkEngagementDecision example_builtins (answers ''{\"postId\":\"7\"}'')
                  (example_post ''A'') optimizing_runner)) = ''yes''
   \<and> engage (fst (checkEngagementDecision example_builtins (answers ''{\"engage\":\"NO\"}'')
                  (example_post ''A'') optimizing_runner)) = ''no''
   \<and> engage (fst (checkEngagementDecision example_builtins (answers ''{\"Engage\":\"Yes\"}'')
                  (example_post ''A'') optimizing_runner)) = ''yes''
   \<and> engage (fst (checkEngagementDecision typed_builtins (answers ''{\"engage\":false}'')
                  (example_post ''A'') optimizing_runner)) = ''yes''
   \<and> fst (checkEngagementDecision typed_builtins (answers ''{\"engage\":5}'')
                  (example_post ''A'') optimizing_runner) = fail_open"
  using verdict_normalised [of optimizing_runner "''https://n8n.example/webhook''" "example_post ''A''"
           example_builtins "''{}''" "answers ''{\"postId\":\"7\"}''"
           "\<lparr>status = 200, statusText = ''OK'', body = Inr ''{\"postId\":\"7\"}''\<rparr>"
           "''{\"postId\":\"7\"}''" "[(''postId'', JStr ''7'')]"]
    verdict_normalised [of optimizing_runner "''https://n8n.example/webhook''" "example_post ''A''"
           example_builtins "''{}''" "answers ''{\"engage\":\"NO\"}''"
           "\<lparr>status = 200, statusText = ''OK'', body = Inr ''{\"engage\":\"NO\"}''\<rparr>"
           "''{\"engage\":\"NO\"}''" "[(''engage'', JStr ''NO'')]"]
    verdict_normalised [of optimizing_runner "''https://n8n.example/webhook''" "example_post ''A''"
           example_builtins "''{}''" "answers ''{\"Engage\":\"Yes\"}''"
           "\<lparr>status = 200, statusText = ''OK'', body = Inr ''{\"Engage\":\"Yes\"}''\<rparr>"
           "''{\"Engage\":\"Yes\"}''" "[(''Engage'', JStr ''Yes'')]"]
    verdict_normalised [of optimizing_runner "''https://n8n.example/webhook''" "example_post ''A''"
           typed_builtins "''{}''" "answers ''{\"engage\":false}''"
           "\<lparr>status = 200, statusText = ''OK'', body = Inr ''{\"engage\":false}''\<rparr>"
           "''{\"engage\":false}''" "[(''engage'', JBool False)]"]
    verdict_normalised [of optimizing_runner "''https://n8n.example/webhook''" "example_post ''A''"
           typed_builtins "''{}''" "answers ''{\"engage\":5}''"
           "\<lparr>status = 200, statusText = ''OK'', body = Inr ''{\"engage\":5}''\<rparr>"
           "''{\"engage\":5}''" "[(''engage'', JNum (Fin 5))]"]
  by (simp add: example_defs typed_builtins_def fresh_verdict_def response_ok_def trim_def
        is_space_def toLowerCase_def lower_char_def js_or_def)

text \<open>
  C9 as stated fails for a verdict that is present and not a non-empty string: the answer
  \<open>{"engage": false}\<close> gives the verdict \<open>yes\<close>, and at \<open>{"engage": 5}\<close> the normalisation
  throws, so that the verdict is the affirmative one of the \<open>catch\<close>; neither value is
  put in lower case and compared.
\<close>

theorem present_verdict_not_lowercased:
  "engage (fst (checkEngagementDecision typed_builtins (answers ''{\"engage\":false}'')
                  (example_post ''A'') optimizing_runner)) = ''yes''
   \<and> normalizeResult (JObj [(''engage'', JNum (Fin 5))]) (example_post ''A'') = None
   \<and> fst (checkEngagementDecision typed_builtins (answers ''{\"engage\":5}'')
                  (example_post ''A'') optimizing_runner) = fail_open"
  by (simp add: checkEngagementDecision_def executeWebhookRequest_def request_try_def
        normalizeResult_def js_or_def typed_builtins_def example_defs fresh_verdict_def
        response_ok_def trim_def is_space_def toLowerCase_def lower_char_def fail_open_def
        await_ms_def Let_def updateHUD_def logger_def cacheKey_def outer_html_def cache_set_def)

section \<open>Lifecycle calls at the suspension points\<close>

lemma seen_api_call: "pageOpen (api_call c r) \<Longrightarrow> pageOpen r \<and> seenPostIds (api_call c r) = seenPostIds r"
  by (cases c) (simp_all add: api_call_def stop_def stop_second_def Let_def cleanup_def
      resetStats_def cleanupTempData_def pause_def resume_def split: if_splits)



section \<open>Properties of the advance past the current item\<close>

lemma await_ms_no_pending:
  "pending r = [] \<Longrightarrow> await_ms d r = r\<lparr>clock := clock r + nat d\<rparr>"
  by (simp add: await_ms_def)

lemma advance_returns_ends:
  assumes "advancePastPost w cur r = Some res" "pageOpen r" "pending r = []"
  shows "\<exists>k. ends_advance cur (probe w (nProbe r + k))"
  using assms(2,3)
proof (induction rule: advancePastPost.raw_induct [OF _ assms(1)])
  case (1 adv w cur r res)
  show ?case
  proof (cases "ends_advance cur (probe w (nProbe r))")
    case True
    then have "ends_advance cur (probe w (nProbe r + 0))" by simp
    then show ?thesis by blast
  next
    case False
    let ?r2 = "await_ms 300 (record_event (TabPress (clock r)) (r\<lparr>nProbe := nProbe r + 1\<rparr>))"
    have p2: "pageOpen ?r2" "pending ?r2 = []" "nProbe ?r2 = nProbe r + 1"
      using "1.prems" by (simp_all add: await_ms_no_pending record_event_def)
    from False "1.hyps" "1.prems" have "adv w cur ?r2 = Some res"
      by (cases "probe w (nProbe r)") (auto simp: Let_def p2 pressTab_def split: if_splits)
    with "1.IH" p2(1,2) obtain k where "ends_advance cur (probe w (nProbe ?r2 + k))"
      by blast
    then have "ends_advance cur (probe w (nProbe r + Suc k))"
      using p2(3) by simp
    then show ?thesis by blast
  qed
qed

lemma advance_diverges:
  assumes "pageOpen r" "pending r = []" "\<forall>k. \<not> ends_advance cur (probe w (nProbe r + k))"
  shows "advancePastPost w cur r = None"
proof (cases "advancePastPost w cur r")
  case None
  then show ?thesis .
next
  case (Some res)
  from advance_returns_ends [OF Some assms(1,2)] assms(3) show ?thesis by blast
qed




lemma api_call_closed: "\<not> pageOpen r \<Longrightarrow> \<not> pageOpen (api_call c r)"
  using seen_api_call [of c r] by blast



lemma pending_api_call: "pending (api_call c r) = pending r"
  by (cases c) (simp_all add: api_call_def stop_def stop_second_def Let_def cleanup_def
      resetStats_def cleanupTempData_def pause_def resume_def)

lemma clock_api_call: "clock (api_call c r) = clock r"
  by (cases c) (simp_all add: api_call_def stop_def stop_second_def Let_def cleanup_def
      resetStats_def cleanupTempData_def pause_def resume_def)

lemma foldl_api_call_frame:
  "pending (foldl (\<lambda>r' (at, c). api_call c r') r xs) = pending r
   \<and> clock (foldl (\<lambda>r' (at, c). api_call c r') r xs) = clock r"
  by (induction xs arbitrary: r) (auto simp: pending_api_call clock_api_call split: prod.splits)



lemma clock_await_ms: "clock (await_ms d r) = clock r + nat d"
  by (simp add: await_ms_def Let_def foldl_api_call_frame)







lemma stopRequested_api_call: "stopRequested (api_call c r) = stopRequested r"
  by (cases c) (simp_all add: api_call_def stop_def stop_second_def Let_def cleanup_def
      resetStats_def cleanupTempData_def pause_def resume_def)



section \<open>Properties of the loop: one pass through the pipeline for each item\<close>


subsection \<open>Projections of the recorded calls\<close>

lemma acted_append [simp]: "acted (xs @ ys) = acted xs @ acted ys"
  by (induction xs rule: acted.induct) simp_all

lemma decided_append [simp]: "decided (xs @ ys) = decided xs @ decided ys"
  by (induction xs rule: decided.induct) simp_all

lemma marked_append [simp]: "marked (xs @ ys) = marked xs @ marked ys"
  by (induction xs rule: marked.induct) simp_all







subsection \<open>What a sequence of steps does\<close>

lemma trace_api_call [simp]: "trace (api_call c r) = trace r"
  by (cases c) (simp_all add: api_call_def stop_def stop_second_def Let_def cleanup_def
      resetStats_def cleanupTempData_def pause_def resume_def)

lemma trace_foldl_api_call: "trace (foldl (\<lambda>r' (at, c). api_call c r') r xs) = trace r"
  by (induction xs arbitrary: r) (auto split: prod.splits)

lemma trace_await_ms [simp]: "trace (await_ms d r) = trace r"
  by (simp add: await_ms_def Let_def trace_foldl_api_call)



lemma steps_trans: "steps qs r1 r2 \<Longrightarrow> steps ps r r1 \<Longrightarrow> steps (ps @ qs) r r2"
proof (induction rule: steps.induct)
  case (same r)
  then show ?case by simp
next
  case (mark qs r1 r2 i)
  then show ?case using steps.mark [of "ps @ qs" r r2 i] by simp
next
  case (decide qs r1 r2 i)
  then show ?case using steps.decide [of "ps @ qs" r r2 i] by simp
next
  case (act qs r1 r2 i)
  then show ?case using steps.act [of "ps @ qs" r r2 i] by simp
qed (auto intro: steps.intros)



lemma request_try_shape:
  "\<exists>d. snd (request_try pf w req r) = await_ms d r
     \<or> (\<exists>lv m dt. snd (request_try pf w req r) = logger lv m dt (await_ms d r))"
proof (cases "timeout req \<le> latency w")
  case True
  then have "snd (request_try pf w req r) = await_ms (int (timeout req)) r"
    by (simp add: request_try_def)
  then show ?thesis by blast
next
  case nt: False
  let ?r1 = "await_ms (int (latency w)) r"
  have "snd (request_try pf w req r) = ?r1
     \<or> (\<exists>lv m dt. snd (request_try pf w req r) = logger lv m dt ?r1)"
  proof (cases "fetched w")
    case (Rejects e)
    then show ?thesis using nt by (simp add: request_try_def Let_def)
  next
    case (Resolves resp)
    show ?thesis
    proof (cases "response_ok resp")
      case False
      then have "snd (request_try pf w req r) = logger LError ''Webhook HTTP error''
                             [(''status'', JNum (Fin (int (status resp)))),
                              (''statusText'', JStr (statusText resp)),
                              (''url'', JStr (url req)),
                              (''responseBody'',
                                 (case (case body resp of Inl e \<Rightarrow> JNull | Inr text \<Rightarrow> JStr text) of JStr text \<Rightarrow> JStr (take 500 text)
                                                     | _ \<Rightarrow> JUndefined))] ?r1"
        using nt Resolves by (simp add: request_try_def Let_def)
      then show ?thesis by blast
    next
      case True
      show ?thesis
      proof (cases "body resp")
        case (Inl e)
        then show ?thesis using nt Resolves True by (simp add: request_try_def Let_def)
      next
        case (Inr responseText)
        show ?thesis
        proof (cases "responseText = [] \<or> length (trim responseText) = 0")
          case True
          then have "snd (request_try pf w req r) = logger LError ''Webhook returned empty response'' [] ?r1"
            using nt Resolves \<open>response_ok resp\<close> Inr
            by (auto simp: request_try_def Let_def)
          then show ?thesis by blast
        next
          case False
          have "snd (request_try pf w req r) = ?r1
             \<or> (\<exists>m. snd (request_try pf w req r) = logger LError ''Failed to parse JSON response''
                                [(''error'', JStr m), (''responseText'', JStr (take 500 responseText)),
                                 (''responseLength'', JNum (Fin (int (length responseText))))] ?r1)"
            using False nt Resolves \<open>response_ok resp\<close> Inr
            by (cases "json_parse pf responseText")
               (auto simp: request_try_def Let_def split: option.splits)
          then show ?thesis by blast
        qed
      qed
    qed
  qed
  then show ?thesis by blast
qed

lemma executeWebhookRequest_shape:
  "snd (executeWebhookRequest pf w req r) = r
   \<or> (\<exists>lv m dt. snd (executeWebhookRequest pf w req r) = logger lv m dt r)
   \<or> (\<exists>d. snd (executeWebhookRequest pf w req r) = await_ms d r
         \<or> (\<exists>lv m dt. snd (executeWebhookRequest pf w req r) = logger lv m dt (await_ms d r))
         \<or> (\<exists>lv m dt lv' m' dt'. snd (executeWebhookRequest pf w req r) =
                logger lv' m' dt' (logger lv m dt (await_ms d r))))"
proof (cases "json_stringify pf (payload req)")
  case (Inl m)
  then have "snd (executeWebhookRequest pf w req r) =
      logger LError ''PRE-FETCH: Failed to stringify payload'' [(''error'', JStr m)] r"
    by (simp add: executeWebhookRequest_def)
  then show ?thesis by blast
next
  case (Inr ps)
  obtain res r1 where t: "request_try pf w req r = (res, r1)" by (cases "request_try pf w req r")
  from request_try_shape [of pf w req r] t obtain d where
    d: "r1 = await_ms d r \<or> (\<exists>lv m dt. r1 = logger lv m dt (await_ms d r))"
    by auto
  have "snd (executeWebhookRequest pf w req r) = r1
     \<or> (\<exists>lv m dt. snd (executeWebhookRequest pf w req r) = logger lv m dt r1)"
  proof (cases res)
    case (Inl e)
    have "snd (request_catch pf req e r1) = r1 \<or> (\<exists>lv m dt. snd (request_catch pf req e r1) = logger lv m dt r1)"
      by (auto simp: request_catch_def)
    then show ?thesis
      by (auto simp: executeWebhookRequest_def Inr t Inl split: prod.splits)
  next
    case (Inr v)
    then show ?thesis by (simp add: executeWebhookRequest_def \<open>json_stringify pf (payload req) = Inr ps\<close> t)
  qed
  with d show ?thesis by blast
qed


lemma steps_append_Nil: "steps [] r1 r2 \<Longrightarrow> steps ps r r1 \<Longrightarrow> steps ps r r2"
  using steps_trans [of "[]" r1 r2 ps r] by simp

lemma steps_draw: "steps ps r0 r \<Longrightarrow> steps ps r0 (snd (draw w s r))"
  by (simp add: draw_def steps.draws)

lemma steps_cleanupTempData: "steps ps r0 r \<Longrightarrow> steps ps r0 (cleanupTempData r)"
  by (simp add: cleanupTempData_def steps.cached)

lemma steps_request_try: "steps ps r0 r \<Longrightarrow> steps ps r0 (snd (request_try pf w req r))"
  using request_try_shape [of pf w req r] by (auto intro!: steps.wait steps.logged)

lemma steps_executeWebhookRequest:
  "steps ps r0 r \<Longrightarrow> steps ps r0 (snd (executeWebhookRequest pf w req r))"
  using executeWebhookRequest_shape [of pf w req r] by (auto intro!: steps.wait steps.logged)

lemma checkEngagementDecision_shape:
  "snd (checkEngagementDecision pf w pd r) = r
   \<or> (\<exists>req u. snd (checkEngagementDecision pf w pd r) = snd (executeWebhookRequest pf w req (updateHUD u r))
        \<or> (\<exists>c. snd (checkEngagementDecision pf w pd r) =
               (snd (executeWebhookRequest pf w req (updateHUD u r)))\<lparr>domCache := c\<rparr>))"
proof (cases "postAnalysisWebhook r")
  case None
  then show ?thesis by (simp add: checkEngagementDecision_def)
next
  case (Some webhook)
  show ?thesis
  proof (cases "webhook = [] \<or> fresh_verdict pd r \<noteq> None")
    case True
    then show ?thesis using Some by (auto simp: checkEngagementDecision_def)
  next
    case False
    let ?req = "\<lparr>url = webhook, payload = JObj [(''outer_html'', JStr (outer_html pd))], timeout = 180000\<rparr>"
    let ?u = "\<lambda>h. h\<lparr>hud_postId := postId pd, hud_action := ''Waiting for AI analysis...'',
                                hud_engage := ''Pending...''\<rparr>"
    obtain res r2 where e: "executeWebhookRequest pf w ?req (updateHUD ?u r) = (res, r2)"
      by (cases "executeWebhookRequest pf w ?req (updateHUD ?u r)")
    have "snd (checkEngagementDecision pf w pd r) = r2
       \<or> (\<exists>c. snd (checkEngagementDecision pf w pd r) = r2\<lparr>domCache := c\<rparr>)"
      using False Some e
      by (auto simp: checkEngagementDecision_def Let_def split: sum.splits option.splits)
    then have "snd (checkEngagementDecision pf w pd r) = snd (executeWebhookRequest pf w ?req (updateHUD ?u r))
       \<or> (\<exists>c. snd (checkEngagementDecision pf w pd r) =
               (snd (executeWebhookRequest pf w ?req (updateHUD ?u r)))\<lparr>domCache := c\<rparr>)"
      by (simp add: e)
    then show ?thesis by blast
  qed
qed

lemma steps_checkEngagementDecision:
  "steps ps r0 r \<Longrightarrow> steps ps r0 (snd (checkEngagementDecision pf w pd r))"
  using checkEngagementDecision_shape [of pf w pd r]
  by (auto intro!: steps.hud steps.cached steps_executeWebhookRequest)

lemma steps_pressTab: "steps ps r0 r \<Longrightarrow> steps ps r0 (snd (pressTab w r))"
  by (simp add: pressTab_def steps.press steps.probes)

lemma steps_tabDelay: "steps ps r0 r \<Longrightarrow> steps ps r0 (tabDelay w t r)"
  by (simp add: tabDelay_def draw_def steps.wait steps.draws)

lemma steps_randomDelay: "steps ps r0 r \<Longrightarrow> steps ps r0 (snd (randomDelay w r))"
  by (simp add: randomDelay_def draw_def steps.wait steps.draws)

lemma steps_commentPosted: "steps ps r0 r \<Longrightarrow> steps ps r0 (commentPosted m r)"
  by (simp add: commentPosted_def Let_def steps.hud steps.logged steps.counted)

lemma steps_cooldownWait: "steps ps r0 r \<Longrightarrow> steps ps r0 (snd (cooldownWait w t r))"
  by (simp add: cooldownWait_def draw_def steps.wait steps.cool steps.draws)

lemma steps_engageWithPost:
  "steps ps r0 r \<Longrightarrow> steps (ps @ [Act (postId pd)]) r0 (snd (engageWithPost w pd r))"
  by (simp add: engageWithPost_def steps.wait steps.act steps.engagements)

lemma steps_decide:
  "steps ps r0 r \<Longrightarrow> steps (ps @ [Decide (postId pd)]) r0 (snd (decide w pd r))"
  by (simp add: decide_def steps_checkEngagementDecision steps.decide steps.requests)

lemma steps_markSeen:
  "steps ps r0 r \<Longrightarrow> pageOpen r \<Longrightarrow> postId pd \<notin> seenPostIds r \<Longrightarrow>
   steps (ps @ [MarkSeen (postId pd)]) r0 (markSeen pd r)"
  by (simp add: markSeen_def steps.mark)

lemma advance_steps:
  assumes "advancePastPost w cur r = Some (x, r')"
  shows "steps [] r r'"
proof -
  have "\<And>res. advancePastPost w cur r = Some res \<Longrightarrow> steps [] r (snd res)"
  proof -
    fix res assume a: "advancePastPost w cur r = Some res"
    show "steps [] r (snd res)"
    proof (induction rule: advancePastPost.raw_induct [OF _ a])
      case (1 adv w cur r res)
      let ?r1 = "snd (pressTab w r)"
      let ?r2 = "await_ms 300 ?r1"
      have s1: "steps [] r ?r1" by (intro steps_pressTab steps.same)
      have s2: "steps [] r ?r2" by (intro steps.wait steps_pressTab steps.same)
      from "1.hyps" have "res = (Some null_page, r) \<or> (\<exists>m. res = (Some m, ?r1)) \<or> (\<exists>x. res = (x, ?r2))
          \<or> adv w cur ?r2 = Some res"
        by (cases "fst (pressTab w r)"; cases "pressTab w r") (auto simp: Let_def split: if_splits)
      then show ?case
        using s1 s2 "1.IH" [of w cur ?r2 res] steps_append_Nil [of ?r2 "snd res" "[]" r]
        by (auto intro: steps.same)
    qed
  qed
  from this [OF assms] show ?thesis by simp
qed


lemma after_advance_steps:
  assumes "after_advance (advancePastPost w cur r) = Some (c, r')" "steps ps r0 r"
  shows "steps ps r0 r'"
proof -
  from assms(1) obtain x where "advancePastPost w cur r = Some (x, r')"
    by (auto simp: after_advance_def split: option.splits prod.splits)
  from steps_append_Nil [OF advance_steps [OF this] assms(2)] show ?thesis .
qed

lemma engagePost_steps:
  assumes "engagePost w m t pd r = Some (c, r')" "steps ps r0 r"
  shows "steps (ps @ [Act (postId pd)]) r0 r'"
proof -
  let ?u = "updateHUD (\<lambda>h. h\<lparr>hud_action := ''Posting Comment'', hud_postId := postId pd,
                         hud_engage := ''YES''\<rparr>) r"
  obtain commented r1 where e: "engageWithPost w pd ?u = (commented, r1)"
    by (cases "engageWithPost w pd ?u")
  have "steps (ps @ [Act (postId pd)]) r0 (snd (engageWithPost w pd ?u))"
    by (intro steps_engageWithPost steps.hud assms(2))
  then have s1: "steps (ps @ [Act (postId pd)]) r0 r1"
    by (simp add: e)
  show ?thesis
  proof (cases commented)
    case True
    obtain x r2 where cw: "cooldownWait w t (commentPosted m r1) = (x, r2)"
      by (cases "cooldownWait w t (commentPosted m r1)")
    have "steps (ps @ [Act (postId pd)]) r0 (snd (cooldownWait w t (commentPosted m r1)))"
      by (intro steps_cooldownWait steps_commentPosted s1)
    then have s2: "steps (ps @ [Act (postId pd)]) r0 r2"
      by (simp add: cw)
    show ?thesis
    proof (cases x)
      case None
      with assms(1) e True cw have "after_advance (advancePastPost w (postId pd) r2) = Some (c, r')"
        by (simp add: engagePost_def)
      from after_advance_steps [OF this s2] show ?thesis .
    next
      case (Some msg)
      with assms(1) e True cw have "r' = r2" by (simp add: engagePost_def)
      with s2 show ?thesis by simp
    qed
  next
    case False
    with assms(1) e have "after_advance (advancePastPost w (postId pd)
             (updateHUD (\<lambda>h. h\<lparr>hud_action := ''Skipped (Failed)'', hud_postId := postId pd\<rparr>) r1)) = Some (c, r')"
      by (simp add: engagePost_def)
    from after_advance_steps [OF this steps.hud [OF s1]] show ?thesis .
  qed
qed


lemma processPost_steps:
  assumes pp: "processPost w m t pd r = Some (c, r')" and op: "pageOpen r"
  shows "\<exists>ps. steps ps r r' \<and> pass_events (postId pd) ps"
proof -
  let ?i = "postId pd"
  let ?r0 = "record_event (Detected ?i) r"
  have s0: "steps [] r ?r0" by (intro steps.detect steps.same)
  have r0: "pageOpen ?r0" "seenPostIds ?r0 = seenPostIds r" "optimizeEngagement ?r0 = optimizeEngagement r"
    using op by (simp_all add: record_event_def)
  show ?thesis
  proof (cases "?i \<in> seenPostIds r")
    case True
    with pp r0 have "r' = ?r0" by (simp add: processPost_def Let_def)
    with s0 show ?thesis by (auto simp: pass_events_def)
  next
    case new: False
    let ?u = "\<lambda>h. h\<lparr>hud_postId := ?i,
                          hud_action := (if optimizeEngagement ?r0 then ''Analyzing...'' else ''Engaging''),
                          hud_engage := (if optimizeEngagement ?r0 then ''Checking...'' else ''YES'')\<rparr>"
    let ?r1 = "updateHUD ?u (markSeen pd ?r0)"
    have "steps ([] @ [MarkSeen ?i]) r ?r1"
      using new r0 by (intro steps.hud steps_markSeen s0) simp_all
    then have s1: "steps [MarkSeen ?i] r ?r1" by simp
    have o1: "optimizeEngagement ?r1 = optimizeEngagement r"
      by (simp add: updateHUD_def markSeen_def record_event_def)
    show ?thesis
    proof (cases "optimizeEngagement r")
      case False
      with pp new r0 o1 have "engagePost w m t pd ?r1 = Some (c, r')"
        by (simp add: processPost_def Let_def)
      from engagePost_steps [OF this s1] show ?thesis by (auto simp: pass_events_def)
    next
      case True
      let ?pd = "pd\<lparr>outerHTML := Some (postHTML pd)\<rparr>"
      obtain decision r2 where d: "decide w ?pd ?r1 = (decision, r2)"
        by (cases "decide w ?pd ?r1")
      have "steps ([MarkSeen ?i] @ [Decide (postId ?pd)]) r (snd (decide w ?pd ?r1))"
        by (intro steps_decide s1)
      then have s2: "steps [MarkSeen ?i, Decide ?i] r r2" by (simp add: d)
      show ?thesis
      proof (cases "engage decision = ''yes''")
        case False
        with pp new r0 o1 True d have "r' = cleanupTempData (updateHUD (\<lambda>h. h\<lparr>hud_action := ''Skipped'',
                               hud_postId := ?i, hud_engage := ''NO''\<rparr>) r2)"
          by (simp add: processPost_def Let_def)
        with s2 have "steps [MarkSeen ?i, Decide ?i] r r'"
          by (simp add: steps_cleanupTempData steps.hud)
        then show ?thesis by (auto simp: pass_events_def)
      next
        case yes: True
        with pp new r0 o1 True d have "engagePost w m t ?pd
                         (updateHUD (\<lambda>h. h\<lparr>hud_action := ''Approved'', hud_postId := ?i,
                            hud_engage := ''YES''\<rparr>) r2) = Some (c, r')"
          by (simp add: processPost_def Let_def)
        from engagePost_steps [OF this steps.hud [OF s2]] show ?thesis by (auto simp: pass_events_def)
      qed
    qed
  qed
qed











section \<open>Properties of the cool-down\<close>

text \<open>
  C8, as the code has it. The cool-down is one wait, \<open>page.waitForTimeout(cooldown)\<close>: with
  the page open it ends without an error exactly the drawn number of milliseconds after it
  began, whichever pause, resume or stop calls arrive in the meantime and whatever the
  pause flag is. Paused time is not taken out of it.
\<close>

theorem cooldown_is_one_wait:
  assumes "pageOpen r"
  shows "fst (cooldownWait w t r) = None
       \<and> clock (snd (cooldownWait w t r))
           = clock r + nat (cooldownMin t + fst (draw w (cooldownMax t - cooldownMin t) r))"
  using assms
  by (simp add: cooldownWait_def draw_def clock_await_ms record_event_def)

text \<open>
  The theorem for a cool-down of 5000 ms that begins at clock 0, with a pause call after
  1000 ms and the resume call ten seconds later: the cool-down ends at 5000.
\<close>

theorem cooldown_is_one_wait_witness:
  "pageOpen paused_at_1000
   \<and> fst (cooldownWait alternating_world fixed_cooldown paused_at_1000) = None
   \<and> clock (snd (cooldownWait alternating_world fixed_cooldown paused_at_1000)) = 5000"
  using cooldown_is_one_wait [of paused_at_1000 alternating_world fixed_cooldown]
  by (simp add: paused_at_1000_def started_runner_def new_runner_def fixed_cooldown_def
        defaults_timing_def draw_def alternating_world_def)

text \<open>
  C8 as stated fails. Two passes of the loop with a cool-down of 5000 ms, a pause call
  1000 ms after its start and the resume call at 11000 ms: the comment on post A is
  followed by the cool-down from 0 to 5000, the next Tab is pressed at 5000, while the
  session is paused, and after the resume the next Tab is pressed at 11300, at the end of
  the pause wait in progress. No cool-down is left after the resume.
\<close>

theorem cooldown_runs_through_pause:
  "(case keyboardLoop 2 alternating_world (Fin 10) paused_at_1000 of
      Running r' \<Rightarrow> Some (trace r', clock r', isPaused r') | _ \<Rightarrow> None)
   = Some ([TabPress 0, Detected ''A'', MarkSeen ''A'', Act ''A'', Cooldown 0 5000, TabPress 5000,
            TabPress 11300, Detected ''A''], 11300, False)"
  by (simp add: keyboardLoop.simps pauseWait.simps iteration_def tryBody_def processPost_def
        markSeen_def tabDelay_def timing_of_def randomDelay_def
        engagePost_def engageWithPost_def commentPosted_def cooldownWait_def draw_def
        paused_at_1000_def started_runner_def new_runner_def
        fixed_cooldown_def defaults_timing_def alternating_world_def await_ms_def Let_def
        api_call_def pause_def resume_def record_event_def updateHUD_def logger_def after_advance_def
        advancePastPost.simps pressTab_def example_post_def)

section \<open>Properties of the loop: the maximum number of actions\<close>

subsection \<open>What the loop does apart from its reports\<close>


lemma without_reports_eq_iff:
  "without_reports r = without_reports r' \<longleftrightarrow>
     isRunning r = isRunning r' \<and> sessionId r = sessionId r' \<and> stopRequested r = stopRequested r'
   \<and> isPaused r = isPaused r' \<and> keyboardLoopActive r = keyboardLoopActive r'
   \<and> optimizeEngagement r = optimizeEngagement r' \<and> postAnalysisWebhook r = postAnalysisWebhook r'
   \<and> seenPostIds r = seenPostIds r' \<and> sessionStats r = sessionStats r'
   \<and> thresholds r = thresholds r' \<and> thresholdsValidated r = thresholdsValidated r'
   \<and> timing r = timing r' \<and> domCache r = domCache r' \<and> pageOpen r = pageOpen r'
   \<and> contextOpen r = contextOpen r' \<and> browserOpen r = browserOpen r' \<and> clock r = clock r'
   \<and> pending r = pending r' \<and> nProbe r = nProbe r' \<and> nDecide r = nDecide r'
   \<and> nEngage r = nEngage r' \<and> nRand r = nRand r' \<and> trace r = trace r'"
  by (cases r; cases r') (auto simp: without_reports_def)

lemma wr_logger [simp]: "without_reports (logger lv m d r) = without_reports r"
  by (simp add: without_reports_def logger_def)

lemma wr_updateHUD [simp]: "without_reports (updateHUD u r) = without_reports r"
  by (simp add: without_reports_def updateHUD_def)

lemma wr_record_event:
  "without_reports r = without_reports r' \<Longrightarrow>
   without_reports (record_event e r) = without_reports (record_event e r')"
  by (simp add: without_reports_eq_iff record_event_def)

lemma wr_api_call:
  "without_reports r = without_reports r' \<Longrightarrow>
   without_reports (api_call c r) = without_reports (api_call c r')"
  by (cases c) (simp_all add: without_reports_eq_iff api_call_def stop_def stop_second_def Let_def
      cleanup_def resetStats_def cleanupTempData_def pause_def resume_def)

lemma wr_foldl_api_call:
  "without_reports r = without_reports r' \<Longrightarrow>
   without_reports (foldl (\<lambda>r' (at, c). api_call c r') r xs)
   = without_reports (foldl (\<lambda>r' (at, c). api_call c r') r' xs)"
proof (induction xs arbitrary: r r')
  case Nil
  then show ?case by simp
next
  case (Cons x xs)
  obtain at c where x: "x = (at, c)" by (cases x)
  from Cons.IH [OF wr_api_call [OF Cons.prems, of c]] show ?case by (simp add: x)
qed

lemma wr_await_ms:
  assumes "without_reports r = without_reports r'"
  shows "without_reports (await_ms d r) = without_reports (await_ms d r')"
proof -
  from assms have f: "clock r = clock r'" "pending r = pending r'"
    by (simp_all add: without_reports_eq_iff)
  have "without_reports (r\<lparr>clock := clock r + nat d,
            pending := filter (\<lambda>(at, c). \<not> at \<le> clock r + nat d) (pending r)\<rparr>)
      = without_reports (r'\<lparr>clock := clock r + nat d,
            pending := filter (\<lambda>(at, c). \<not> at \<le> clock r + nat d) (pending r)\<rparr>)"
    using assms by (simp add: without_reports_eq_iff)
  from wr_foldl_api_call [OF this] show ?thesis
    by (simp add: await_ms_def Let_def f)
qed

lemma wr_draw:
  assumes "without_reports r = without_reports r'"
  shows "fst (draw w s r) = fst (draw w s r')
       \<and> without_reports (snd (draw w s r)) = without_reports (snd (draw w s r'))"
  using assms by (simp add: draw_def without_reports_eq_iff)

lemma wr_pressTab:
  assumes "without_reports r = without_reports r'"
  shows "fst (pressTab w r) = fst (pressTab w r')
       \<and> without_reports (snd (pressTab w r)) = without_reports (snd (pressTab w r'))"
  using assms by (simp add: pressTab_def record_event_def without_reports_eq_iff)

lemma wr_pageOpen: "without_reports r = without_reports r' \<Longrightarrow> pageOpen r = pageOpen r'"
  by (simp add: without_reports_eq_iff)

lemma wr_randomDelay:
  assumes "without_reports r = without_reports r'"
  shows "fst (randomDelay w r) = fst (randomDelay w r')
       \<and> without_reports (snd (randomDelay w r)) = without_reports (snd (randomDelay w r'))"
proof -
  let ?s = "maxActionDelay w - minActionDelay w + 1"
  obtain x r1 where d: "draw w ?s r = (x, r1)" by (cases "draw w ?s r")
  obtain x' r1' where d': "draw w ?s r' = (x', r1')" by (cases "draw w ?s r'")
  from wr_draw [OF assms, of w ?s] d d' have e: "x = x'" "without_reports r1 = without_reports r1'"
    by simp_all
  show ?thesis
    using e wr_pageOpen [OF e(2)] wr_await_ms [OF e(2)]
    by (simp add: randomDelay_def d d')
qed

lemma wr_tabDelay:
  assumes "without_reports r = without_reports r'"
  shows "without_reports (tabDelay w t r) = without_reports (tabDelay w t r')"
proof -
  let ?s = "tabDelayMax t - tabDelayMin t"
  obtain x r1 where d: "draw w ?s r = (x, r1)" by (cases "draw w ?s r")
  obtain x' r1' where d': "draw w ?s r' = (x', r1')" by (cases "draw w ?s r'")
  from wr_draw [OF assms, of w ?s] d d' have e: "x = x'" "without_reports r1 = without_reports r1'"
    by simp_all
  show ?thesis
    using e wr_await_ms [OF e(2)] by (simp add: tabDelay_def d d')
qed

lemma wr_cooldownWait:
  assumes "without_reports r = without_reports r'"
  shows "fst (cooldownWait w t r) = fst (cooldownWait w t r')
       \<and> without_reports (snd (cooldownWait w t r)) = without_reports (snd (cooldownWait w t r'))"
proof -
  let ?s = "cooldownMax t - cooldownMin t"
  obtain x r1 where d: "draw w ?s r = (x, r1)" by (cases "draw w ?s r")
  obtain x' r1' where d': "draw w ?s r' = (x', r1')" by (cases "draw w ?s r'")
  from wr_draw [OF assms, of w ?s] d d' have e: "x = x'" "without_reports r1 = without_reports r1'"
    by simp_all
  then have c: "clock r1 = clock r1'" by (simp add: without_reports_eq_iff)
  show ?thesis
    using e c wr_pageOpen [OF e(2)] wr_await_ms [OF wr_record_event [OF e(2)]]
    by (simp add: cooldownWait_def d d')
qed

lemma wr_engageWithPost:
  assumes "without_reports r = without_reports r'"
  shows "fst (engageWithPost w pd r) = fst (engageWithPost w pd r')
       \<and> without_reports (snd (engageWithPost w pd r)) = without_reports (snd (engageWithPost w pd r'))"
proof -
  from assms have f: "pageOpen r = pageOpen r'" "nEngage r = nEngage r'"
    by (simp_all add: without_reports_eq_iff)
  have "without_reports (record_event (Act (postId pd)) (r\<lparr>nEngage := nEngage r + 1\<rparr>))
      = without_reports (record_event (Act (postId pd)) (r'\<lparr>nEngage := nEngage r + 1\<rparr>))"
    using assms by (simp add: without_reports_eq_iff record_event_def)
  from wr_await_ms [OF this] show ?thesis
    by (simp add: engageWithPost_def f)
qed

lemma wr_commentPosted:
  assumes "without_reports r = without_reports r'"
  shows "without_reports (commentPosted m r) = without_reports (commentPosted m' r')"
  using assms
  by (simp add: commentPosted_def Let_def) (simp add: without_reports_eq_iff)

lemma wr_markSeen:
  assumes "without_reports r = without_reports r'"
  shows "without_reports (markSeen pd r) = without_reports (markSeen pd r')"
  using assms by (simp add: markSeen_def record_event_def without_reports_eq_iff)

lemma wr_cleanupTempData:
  assumes "without_reports r = without_reports r'"
  shows "without_reports (cleanupTempData r) = without_reports (cleanupTempData r')"
  using assms by (simp add: cleanupTempData_def without_reports_eq_iff)


lemma wr_request_try:
  "fst (request_try pf w req r) = fst (request_try pf w req r')
   \<and> without_reports (snd (request_try pf w req r))
       = without_reports (await_ms (int (if timeout req \<le> latency w then timeout req else latency w)) r)"
  by (simp add: request_try_def Let_def split: fetch_outcome.splits sum.splits option.splits)

lemma wr_request_catch:
  "fst (request_catch pf req e r) = fst (request_catch pf req e r')
   \<and> without_reports (snd (request_catch pf req e r)) = without_reports r"
  by (simp add: request_catch_def)

lemma wr_executeWebhookRequest:
  assumes "without_reports r = without_reports r'"
  shows "fst (executeWebhookRequest pf w req r) = fst (executeWebhookRequest pf w req r')
       \<and> without_reports (snd (executeWebhookRequest pf w req r))
           = without_reports (snd (executeWebhookRequest pf w req r'))"
proof (cases "json_stringify pf (payload req)")
  case (Inl m)
  then show ?thesis using assms by (simp add: executeWebhookRequest_def)
next
  case (Inr ps)
  obtain x r1 where t: "request_try pf w req r = (x, r1)" by (cases "request_try pf w req r")
  obtain x' r1' where t': "request_try pf w req r' = (x', r1')" by (cases "request_try pf w req r'")
  let ?d = "int (if timeout req \<le> latency w then timeout req else latency w)"
  from wr_request_try [of pf w req r r'] t t' have "x' = x" by simp
  with t' have t'': "request_try pf w req r' = (x, r1')" by simp
  from wr_request_try [of pf w req r r] t have "without_reports r1 = without_reports (await_ms ?d r)"
    by simp
  moreover from wr_request_try [of pf w req r' r'] t''
  have "without_reports r1' = without_reports (await_ms ?d r')" by simp
  ultimately have r1: "without_reports r1 = without_reports r1'"
    using wr_await_ms [OF assms, of ?d] by simp
  show ?thesis
  proof (cases x)
    case (Inr parsed)
    then show ?thesis using \<open>json_stringify pf (payload req) = Inr ps\<close> t t'' r1
      by (simp add: executeWebhookRequest_def)
  next
    case (Inl e)
    obtain y r2 where c: "request_catch pf req e r1 = (y, r2)" by (cases "request_catch pf req e r1")
    obtain y' r2' where c': "request_catch pf req e r1' = (y', r2')"
      by (cases "request_catch pf req e r1'")
    from wr_request_catch [of pf req e r1 r1'] wr_request_catch [of pf req e r1' r1] c c' r1
    have "y' = y" "without_reports r2 = without_reports r2'" by simp_all
    with c' have c'': "request_catch pf req e r1' = (y, r2')" by simp
    show ?thesis using \<open>json_stringify pf (payload req) = Inr ps\<close> t t'' Inl c c''
        \<open>without_reports r2 = without_reports r2'\<close>
      by (simp add: executeWebhookRequest_def)
  qed
qed

lemma wr_checkEngagementDecision:
  assumes "without_reports r = without_reports r'"
  shows "fst (checkEngagementDecision pf w pd r) = fst (checkEngagementDecision pf w pd r')
       \<and> without_reports (snd (checkEngagementDecision pf w pd r))
           = without_reports (snd (checkEngagementDecision pf w pd r'))"
proof -
  from assms have g: "postAnalysisWebhook r = postAnalysisWebhook r'" "clock r = clock r'"
      "domCache r = domCache r'"
    by (simp_all add: without_reports_eq_iff)
  then have f: "postAnalysisWebhook r = postAnalysisWebhook r'"
      "fresh_verdict pd r = fresh_verdict pd r'"
    by (simp_all add: fresh_verdict_def split: option.splits)
  show ?thesis
  proof (cases "postAnalysisWebhook r = None \<or> postAnalysisWebhook r = Some []
                \<or> fresh_verdict pd r \<noteq> None")
    case True
    then show ?thesis using f assms
      by (cases "postAnalysisWebhook r'"; cases "fresh_verdict pd r'")
         (auto simp: checkEngagementDecision_def)
  next
    case False
    then obtain webhook where wh: "postAnalysisWebhook r = Some webhook" "webhook \<noteq> []"
        "fresh_verdict pd r = None"
      by (cases "postAnalysisWebhook r") auto
    let ?req = "\<lparr>url = webhook, payload = JObj [(''outer_html'', JStr (outer_html pd))], timeout = 180000\<rparr>"
    let ?u = "\<lambda>h. h\<lparr>hud_postId := postId pd, hud_action := ''Waiting for AI analysis...'',
                                 hud_engage := ''Pending...''\<rparr>"
    obtain x r2 where e: "executeWebhookRequest pf w ?req (updateHUD ?u r) = (x, r2)"
      by (cases "executeWebhookRequest pf w ?req (updateHUD ?u r)")
    obtain x' r2' where e': "executeWebhookRequest pf w ?req (updateHUD ?u r') = (x', r2')"
      by (cases "executeWebhookRequest pf w ?req (updateHUD ?u r')")
    have "without_reports (updateHUD ?u r) = without_reports (updateHUD ?u r')"
      using assms by simp
    from wr_executeWebhookRequest [OF this, of pf w ?req] e e'
    have "x' = x" and r2: "without_reports r2 = without_reports r2'" by simp_all
    with e' have e'': "executeWebhookRequest pf w ?req (updateHUD ?u r') = (x, r2')" by simp
    from r2 have c: "clock r2 = clock r2'" "domCache r2 = domCache r2'"
      by (simp_all add: without_reports_eq_iff)
    have upd: "without_reports (r2\<lparr>domCache := dc\<rparr>) = without_reports (r2'\<lparr>domCache := dc\<rparr>)" for dc
      using r2 by (simp add: without_reports_eq_iff)
    from wh f have wh': "postAnalysisWebhook r' = Some webhook" "webhook \<noteq> []"
        "fresh_verdict pd r' = None" by simp_all
    show ?thesis
      using r2 c upd
      by (simp add: checkEngagementDecision_call [OF wh] checkEngagementDecision_call [OF wh'] e e''
            split: sum.splits option.splits)
  qed
qed

lemma wr_decide:
  assumes "without_reports r = without_reports r'"
  shows "fst (decide w pd r) = fst (decide w pd r')
       \<and> without_reports (snd (decide w pd r)) = without_reports (snd (decide w pd r'))"
proof -
  from assms have n: "nDecide r = nDecide r'" by (simp add: without_reports_eq_iff)
  have "without_reports (record_event (Decide (postId pd)) (r\<lparr>nDecide := nDecide r + 1\<rparr>))
      = without_reports (record_event (Decide (postId pd)) (r'\<lparr>nDecide := nDecide r + 1\<rparr>))"
    using assms by (simp add: without_reports_eq_iff record_event_def)
  from wr_checkEngagementDecision [OF this] show ?thesis
    by (simp add: decide_def n)
qed

lemma wr_pauseWait_Some:
  assumes "pauseWait w r = Some (x, s)" "without_reports r = without_reports r'"
  shows "\<exists>s'. pauseWait w r' = Some (x, s') \<and> without_reports s = without_reports s'"
proof -
  have "\<And>res r'. pauseWait w r = Some res \<Longrightarrow> without_reports r = without_reports r' \<Longrightarrow>
          \<exists>s'. pauseWait w r' = Some (fst res, s') \<and> without_reports (snd res) = without_reports s'"
  proof -
    fix res r' assume a: "pauseWait w r = Some res" and b: "without_reports r = without_reports r'"
    show "\<exists>s'. pauseWait w r' = Some (fst res, s') \<and> without_reports (snd res) = without_reports s'"
      using b
    proof (induction arbitrary: r' rule: pauseWait.raw_induct [OF _ a])
      case (1 pw w r res)
      from "1.prems" have f: "isPaused r = isPaused r'" "keyboardLoopActive r = keyboardLoopActive r'"
          "stopRequested r = stopRequested r'"
        by (simp_all add: without_reports_eq_iff)
      show ?case
      proof (cases "isPaused r \<and> keyboardLoopActive r \<and> \<not> stopRequested r")
        case False
        with "1.hyps" have "res = (None, r)" by (auto split: if_splits)
        with False f "1.prems" show ?thesis
          by (subst pauseWait.simps) auto
      next
        case True
        obtain y r1 where rd: "randomDelay w r = (y, r1)" by (cases "randomDelay w r")
        obtain y' r1' where rd': "randomDelay w r' = (y', r1')" by (cases "randomDelay w r'")
        from wr_randomDelay [OF "1.prems", of w] rd rd'
        have "y' = y" and e: "without_reports r1 = without_reports r1'" by simp_all
        with rd' have rd'': "randomDelay w r' = (y, r1')" by simp
        from True f have True': "isPaused r' \<and> keyboardLoopActive r' \<and> \<not> stopRequested r'" by simp
        show ?thesis
        proof (cases y)
          case (Some m)
          with "1.hyps" True rd have res: "res = (Some m, r1)" by simp
          have "pauseWait w r' = Some (Some m, r1')"
            by (subst pauseWait.simps) (simp add: True' rd'' Some)
          with res e show ?thesis by simp
        next
          case None
          with "1.hyps" True rd have "pw w r1 = Some res" by simp
          from "1.IH" [OF this e] obtain s' where
            s': "pauseWait w r1' = Some (fst res, s')" "without_reports (snd res) = without_reports s'"
            by blast
          have "pauseWait w r' = pauseWait w r1'"
            by (subst pauseWait.simps) (simp add: True' rd'' None)
          with s' show ?thesis by simp
        qed
      qed
    qed
  qed
  from this [OF assms] show ?thesis by simp
qed

lemma wr_advance_Some:
  assumes "advancePastPost w cur r = Some (x, s)" "without_reports r = without_reports r'"
  shows "\<exists>s'. advancePastPost w cur r' = Some (x, s') \<and> without_reports s = without_reports s'"
proof -
  have "\<And>res r'. advancePastPost w cur r = Some res \<Longrightarrow> without_reports r = without_reports r' \<Longrightarrow>
          \<exists>s'. advancePastPost w cur r' = Some (fst res, s') \<and> without_reports (snd res) = without_reports s'"
  proof -
    fix res r' assume a: "advancePastPost w cur r = Some res" and b: "without_reports r = without_reports r'"
    show "\<exists>s'. advancePastPost w cur r' = Some (fst res, s') \<and> without_reports (snd res) = without_reports s'"
      using b
    proof (induction arbitrary: r' rule: advancePastPost.raw_induct [OF _ a])
      case (1 adv w cur r res)
      note po = wr_pageOpen [OF "1.prems"]
      show ?case
      proof (cases "pageOpen r")
        case False
        with "1.hyps" have "res = (Some null_page, r)" by simp
        with False po "1.prems" show ?thesis
          by (subst advancePastPost.simps) simp
      next
        case True
        obtain p r1 where pt: "pressTab w r = (p, r1)" by (cases "pressTab w r")
        obtain p' r1' where pt': "pressTab w r' = (p', r1')" by (cases "pressTab w r'")
        from wr_pressTab [OF "1.prems", of w] pt pt'
        have "p' = p" and e: "without_reports r1 = without_reports r1'" by simp_all
        with pt' have pt'': "pressTab w r' = (p, r1')" by simp
        from True po have True': "pageOpen r'" by simp
        let ?r2 = "await_ms 300 r1" and ?r2' = "await_ms 300 r1'"
        have e2: "without_reports ?r2 = without_reports ?r2'" by (rule wr_await_ms) (rule e)
        note po2 = wr_pageOpen [OF e2]
        have again: "\<exists>s'. advancePastPost w cur r' = Some (fst res, s')
                          \<and> without_reports (snd res) = without_reports s'"
          if "adv w cur ?r2 = Some res" "advancePastPost w cur r' = advancePastPost w cur ?r2'"
          using "1.IH" [OF that(1) e2] that(2) by simp
        show ?thesis
        proof (cases p)
          case (PressThrows m)
          with "1.hyps" True pt have res: "res = (Some m, r1)" by simp
          have "advancePastPost w cur r' = Some (Some m, r1')"
            by (subst advancePastPost.simps) (simp add: True' pt'' PressThrows)
          with res e show ?thesis by simp
        next
          case (ReadThrows m)
          show ?thesis
          proof (cases "pageOpen ?r2")
            case open2: True
            with "1.hyps" True pt ReadThrows have res: "res = (Some m, ?r2)" by (simp add: Let_def)
            have "advancePastPost w cur r' = Some (Some m, ?r2')"
              using open2 po2 by (subst advancePastPost.simps) (simp add: True' pt'' ReadThrows Let_def)
            with res e2 show ?thesis by simp
          next
            case closed2: False
            with "1.hyps" True pt ReadThrows have "adv w cur ?r2 = Some res" by (simp add: Let_def)
            moreover have "advancePastPost w cur r' = advancePastPost w cur ?r2'"
              using closed2 po2 by (subst advancePastPost.simps) (simp add: True' pt'' ReadThrows Let_def)
            ultimately show ?thesis by (rule again)
          qed
        next
          case NoPost
          with "1.hyps" True pt have "adv w cur ?r2 = Some res" by simp
          moreover have "advancePastPost w cur r' = advancePastPost w cur ?r2'"
            by (subst advancePastPost.simps) (simp add: True' pt'' NoPost)
          ultimately show ?thesis by (rule again)
        next
          case (Post cp)
          show ?thesis
          proof (cases "pageOpen ?r2 \<and> postId cp \<noteq> [] \<and> postId cp \<noteq> cur")
            case found: True
            with "1.hyps" True pt Post have res: "res = (None, ?r2)" by (simp add: Let_def)
            have "advancePastPost w cur r' = Some (None, ?r2')"
              using found po2 by (subst advancePastPost.simps) (simp add: True' pt'' Post Let_def)
            with res e2 show ?thesis by simp
          next
            case same: False
            with "1.hyps" True pt Post have "adv w cur ?r2 = Some res" by (auto simp: Let_def)
            moreover have "advancePastPost w cur r' = advancePastPost w cur ?r2'"
              using same po2 by (subst advancePastPost.simps) (auto simp: True' pt'' Post Let_def)
            ultimately show ?thesis by (rule again)
          qed
        qed
      qed
    qed
  qed
  from this [OF assms] show ?thesis by simp
qed


lemma wr_reads:
  assumes "without_reports r = without_reports r'"
  shows "keyboardLoopActive r = keyboardLoopActive r'" "stopRequested r = stopRequested r'"
    "isPaused r = isPaused r'" "seenPostIds r = seenPostIds r'"
    "optimizeEngagement r = optimizeEngagement r'" "timing r = timing r'"
  using assms by (simp_all add: without_reports_eq_iff)

lemma same_step_Some [simp]:
  "same_step (Some (c, s)) (Some (c', s')) = (c = c' \<and> without_reports s = without_reports s')"
  by (simp add: same_step_def)

lemma same_step_None [simp]: "same_step None None"
  by (simp add: same_step_def)

lemma same_stepI:
  assumes "\<And>x s. a = Some (x, s) \<Longrightarrow> \<exists>s'. b = Some (x, s') \<and> without_reports s = without_reports s'"
    and "\<And>x s. b = Some (x, s) \<Longrightarrow> \<exists>s'. a = Some (x, s') \<and> without_reports s = without_reports s'"
  shows "same_step a b"
proof (cases a)
  case None
  show ?thesis
  proof (cases b)
    case None
    with \<open>a = None\<close> show ?thesis by simp
  next
    case (Some y)
    obtain x s where "y = (x, s)" by (cases y)
    with assms(2) [of x s] Some \<open>a = None\<close> show ?thesis by simp
  qed
next
  case (Some y)
  obtain x s where "y = (x, s)" by (cases y)
  with assms(1) [of x s] Some show ?thesis by auto
qed

lemma same_step_advance:
  assumes "without_reports r = without_reports r'"
  shows "same_step (advancePastPost w cur r) (advancePastPost w cur r')"
  by (rule same_stepI) (use wr_advance_Some assms in \<open>metis\<close>)+

lemma same_step_pauseWait:
  assumes "without_reports r = without_reports r'"
  shows "same_step (pauseWait w r) (pauseWait w r')"
  by (rule same_stepI) (use wr_pauseWait_Some assms in \<open>metis\<close>)+

lemma same_step_after_advance:
  assumes "same_step a b"
  shows "same_step (after_advance a) (after_advance b)"
  using assms
  by (cases a; cases b) (auto simp: same_step_def after_advance_def split: option.splits)

lemma same_step_engagePost:
  assumes "without_reports r = without_reports r'"
  shows "same_step (engagePost w m t pd r) (engagePost w m' t pd r')"
proof -
  let ?u = "\<lambda>h. h\<lparr>hud_action := ''Posting Comment'', hud_postId := postId pd, hud_engage := ''YES''\<rparr>"
  obtain c r1 where e: "engageWithPost w pd (updateHUD ?u r) = (c, r1)"
    by (cases "engageWithPost w pd (updateHUD ?u r)")
  obtain c' r1' where e': "engageWithPost w pd (updateHUD ?u r') = (c', r1')"
    by (cases "engageWithPost w pd (updateHUD ?u r')")
  have "without_reports (updateHUD ?u r) = without_reports (updateHUD ?u r')"
    using assms by simp
  from wr_engageWithPost [OF this, of w pd] e e'
  have "c' = c" and r1: "without_reports r1 = without_reports r1'" by simp_all
  with e' have e'': "engageWithPost w pd (updateHUD ?u r') = (c, r1')" by simp
  show ?thesis
  proof (cases c)
    case False
    let ?v = "\<lambda>h. h\<lparr>hud_action := ''Skipped (Failed)'', hud_postId := postId pd\<rparr>"
    have "without_reports (updateHUD ?v r1) = without_reports (updateHUD ?v r1')"
      using r1 by simp
    from same_step_after_advance [OF same_step_advance [OF this]] show ?thesis
      using False by (simp add: engagePost_def e e'')
  next
    case True
    obtain x r2 where cw: "cooldownWait w t (commentPosted m r1) = (x, r2)"
      by (cases "cooldownWait w t (commentPosted m r1)")
    obtain x' r2' where cw': "cooldownWait w t (commentPosted m' r1') = (x', r2')"
      by (cases "cooldownWait w t (commentPosted m' r1')")
    from wr_cooldownWait [OF wr_commentPosted [OF r1, of m m'], of w t] cw cw'
    have "x' = x" and r2: "without_reports r2 = without_reports r2'" by simp_all
    with cw' have cw'': "cooldownWait w t (commentPosted m' r1') = (x, r2')" by simp
    show ?thesis
    proof (cases x)
      case (Some msg)
      then show ?thesis using True r2 by (simp add: engagePost_def e e'' cw cw'')
    next
      case None
      from same_step_after_advance [OF same_step_advance [OF r2]] show ?thesis
        using True None by (simp add: engagePost_def e e'' cw cw'')
    qed
  qed
qed

lemma processPost_seen:
  "postId pd \<in> seenPostIds r \<Longrightarrow>
   processPost w m t pd r = Some (Continue, record_event (Detected (postId pd)) r)"
  by (simp add: processPost_def Let_def record_event_def)

lemma processPost_default:
  "postId pd \<notin> seenPostIds r \<Longrightarrow> \<not> optimizeEngagement r \<Longrightarrow>
   processPost w m t pd r =
     engagePost w m t pd
       (updateHUD (\<lambda>h. h\<lparr>hud_postId := postId pd, hud_action := ''Engaging'', hud_engage := ''YES''\<rparr>)
          (markSeen pd (record_event (Detected (postId pd)) r)))"
  by (simp add: processPost_def Let_def record_event_def updateHUD_def markSeen_def)

lemma processPost_optimize:
  "postId pd \<notin> seenPostIds r \<Longrightarrow> optimizeEngagement r \<Longrightarrow>
   processPost w m t pd r =
     (case decide w (pd\<lparr>outerHTML := Some (postHTML pd)\<rparr>)
             (updateHUD (\<lambda>h. h\<lparr>hud_postId := postId pd, hud_action := ''Analyzing...'',
                           hud_engage := ''Checking...''\<rparr>)
                (markSeen pd (record_event (Detected (postId pd)) r))) of
        (decision, r2) \<Rightarrow>
          if engage decision \<noteq> ''yes'' then
            Some (Continue,
                  cleanupTempData (updateHUD (\<lambda>h. h\<lparr>hud_action := ''Skipped'',
                    hud_postId := postId pd, hud_engage := ''NO''\<rparr>) r2))
          else
            engagePost w m t (pd\<lparr>outerHTML := Some (postHTML pd)\<rparr>)
              (updateHUD (\<lambda>h. h\<lparr>hud_action := ''Approved'', hud_postId := postId pd,
                 hud_engage := ''YES''\<rparr>) r2))"
  by (simp add: processPost_def Let_def record_event_def updateHUD_def markSeen_def)

lemma same_step_processPost:
  assumes "without_reports r = without_reports r'"
  shows "same_step (processPost w m t pd r) (processPost w m' t pd r')"
proof -
  let ?i = "postId pd"
  note f = wr_reads(4,5) [OF assms]
  have r0: "without_reports (markSeen pd (record_event (Detected ?i) r))
          = without_reports (markSeen pd (record_event (Detected ?i) r'))"
    by (intro wr_markSeen wr_record_event assms)
  show ?thesis
  proof (cases "?i \<in> seenPostIds r")
    case True
    with f have "?i \<in> seenPostIds r'" by simp
    with True wr_record_event [OF assms, of "Detected ?i"] show ?thesis
      by (simp add: processPost_seen)
  next
    case new: False
    with f have new': "?i \<notin> seenPostIds r'" by simp
    show ?thesis
    proof (cases "optimizeEngagement r")
      case False
      with f have False': "\<not> optimizeEngagement r'" by simp
      let ?u = "\<lambda>h. h\<lparr>hud_postId := ?i, hud_action := ''Engaging'', hud_engage := ''YES''\<rparr>"
      have "without_reports (updateHUD ?u (markSeen pd (record_event (Detected ?i) r)))
          = without_reports (updateHUD ?u (markSeen pd (record_event (Detected ?i) r')))"
        using r0 by simp
      from same_step_engagePost [OF this, of w m t pd m'] show ?thesis
        by (simp add: processPost_default [OF new False] processPost_default [OF new' False'])
    next
      case True
      with f have True': "optimizeEngagement r'" by simp
      let ?pd = "pd\<lparr>outerHTML := Some (postHTML pd)\<rparr>"
      let ?u = "\<lambda>h. h\<lparr>hud_postId := ?i, hud_action := ''Analyzing...'', hud_engage := ''Checking...''\<rparr>"
      let ?r1 = "updateHUD ?u (markSeen pd (record_event (Detected ?i) r))"
      let ?r1' = "updateHUD ?u (markSeen pd (record_event (Detected ?i) r'))"
      have r1: "without_reports ?r1 = without_reports ?r1'"
        using r0 by simp
      obtain d r2 where dc: "decide w ?pd ?r1 = (d, r2)" by (cases "decide w ?pd ?r1")
      obtain d' r2' where dc': "decide w ?pd ?r1' = (d', r2')" by (cases "decide w ?pd ?r1'")
      from wr_decide [OF r1, of w ?pd] dc dc'
      have "d' = d" and r2: "without_reports r2 = without_reports r2'" by simp_all
      with dc' have dc'': "decide w ?pd ?r1' = (d, r2')" by simp
      show ?thesis
      proof (cases "engage d = ''yes''")
        case False
        let ?v = "\<lambda>h. h\<lparr>hud_action := ''Skipped'', hud_postId := ?i, hud_engage := ''NO''\<rparr>"
        have "without_reports (updateHUD ?v r2) = without_reports (updateHUD ?v r2')"
          using r2 by simp
        from wr_cleanupTempData [OF this] show ?thesis
          using False
          by (simp add: processPost_optimize [OF new True] processPost_optimize [OF new' True'] dc dc'')
      next
        case yes: True
        let ?v = "\<lambda>h. h\<lparr>hud_action := ''Approved'', hud_postId := ?i, hud_engage := ''YES''\<rparr>"
        have "without_reports (updateHUD ?v r2) = without_reports (updateHUD ?v r2')"
          using r2 by simp
        from same_step_engagePost [OF this, of w m t ?pd m'] show ?thesis
          using yes
          by (simp add: processPost_optimize [OF new True] processPost_optimize [OF new' True'] dc dc'')
      qed
    qed
  qed
qed

lemma same_step_tryBody:
  assumes "without_reports r = without_reports r'"
  shows "same_step (tryBody w m r) (tryBody w m' r')"
proof -
  note f = wr_reads(2) [OF assms]
  let ?u = "\<lambda>h. h\<lparr>hud_lastKey := Some ''Tab''\<rparr>"
  have r1: "without_reports (updateHUD ?u r) = without_reports (updateHUD ?u r')"
    using assms by simp
  note po1 = wr_pageOpen [OF r1]
  obtain p r2 where pt: "pressTab w (updateHUD ?u r) = (p, r2)" by (cases "pressTab w (updateHUD ?u r)")
  obtain p' r2' where pt': "pressTab w (updateHUD ?u r') = (p', r2')"
    by (cases "pressTab w (updateHUD ?u r')")
  from wr_pressTab [OF r1, of w] pt pt'
  have "p' = p" and r2: "without_reports r2 = without_reports r2'" by simp_all
  with pt' have pt'': "pressTab w (updateHUD ?u r') = (p, r2')" by simp
  from wr_reads(6) [OF r2] have tm: "timing_of r2 = timing_of r2'"
    by (simp add: timing_of_def)
  let ?r3 = "tabDelay w (timing_of r2) r2" and ?r3' = "tabDelay w (timing_of r2) r2'"
  have r3: "without_reports ?r3 = without_reports ?r3'" by (rule wr_tabDelay) (rule r2)
  note f3 = wr_reads(2) [OF r3] wr_pageOpen [OF r3]
  have pp: "same_step (processPost w m (timing_of r2) pd ?r3) (processPost w m' (timing_of r2) pd ?r3')" for pd
    by (rule same_step_processPost) (rule r3)
  show ?thesis
    using assms f r1 po1 r2 r3 f3 pp
    by (cases p) (simp_all add: tryBody_def Let_def pt pt'' tm [symmetric])
qed

lemma same_step_iteration:
  assumes "without_reports r = without_reports r'"
  shows "same_step (iteration w m r) (iteration w m' r')"
  using same_step_tryBody [OF assms, of w m m']
  by (cases "tryBody w m r"; cases "tryBody w m' r'")
     (auto simp: iteration_def same_step_def split: completion.splits)

lemma same_outcome_keyboardLoop:
  "without_reports r = without_reports r' \<Longrightarrow>
   same_outcome (keyboardLoop n w m r) (keyboardLoop n w m' r')"
proof (induction n arbitrary: r r')
  case 0
  then show ?case using wr_reads(1,2) [OF 0] by (simp add: keyboardLoop.simps)
next
  case (Suc k)
  note f = wr_reads(1,2) [OF Suc.prems]
  show ?case
  proof (cases "keyboardLoopActive r \<and> \<not> stopRequested r")
    case False
    with f Suc.prems show ?thesis by (auto simp: keyboardLoop.simps)
  next
    case live: True
    with f have live': "keyboardLoopActive r' \<and> \<not> stopRequested r'" by simp
    note pw = same_step_pauseWait [OF Suc.prems, of w]
    show ?thesis
    proof (cases "pauseWait w r")
      case None
      with pw have "pauseWait w r' = None" by (cases "pauseWait w r'") (simp_all add: same_step_def)
      with None live live' Suc.prems show ?thesis by (simp add: keyboardLoop.simps)
    next
      case (Some res)
      obtain x r1 where res: "res = (x, r1)" by (cases res)
      with pw Some obtain r1' where p': "pauseWait w r' = Some (x, r1')"
          and r1: "without_reports r1 = without_reports r1'"
        by (cases "pauseWait w r'") (auto simp: same_step_def)
      note f1 = wr_reads(1,2) [OF r1]
      show ?thesis
      proof (cases "x \<noteq> None \<or> \<not> keyboardLoopActive r1 \<or> stopRequested r1")
        case True
        with live live' Some res p' r1 f1 show ?thesis
          by (cases x) (auto simp: keyboardLoop.simps)
      next
        case go: False
        note it = same_step_iteration [OF r1, of w m m']
        show ?thesis
        proof (cases "iteration w m r1")
          case None
          with it have "iteration w m' r1' = None"
            by (cases "iteration w m' r1'") (simp_all add: same_step_def)
          with None live live' Some res p' r1 f1 go show ?thesis
            by (auto simp: keyboardLoop.simps)
        next
          case it1: (Some res2)
          obtain c r2 where res2: "res2 = (c, r2)" by (cases res2)
          with it it1 obtain r2' where it': "iteration w m' r1' = Some (c, r2')"
              and r2: "without_reports r2 = without_reports r2'"
            by (cases "iteration w m' r1'") (auto simp: same_step_def)
          from Suc.IH [OF r2] have "same_outcome (keyboardLoop k w m r2) (keyboardLoop k w m' r2')" .
          with live live' Some res p' f1 go it1 res2 it' r2 show ?thesis
            by (cases c) (auto simp: keyboardLoop.simps [of "Suc k"])
        qed
      qed
    qed
  qed
qed

subsection \<open>The loop is left only by a stop or a closed session\<close>


lemma undisturbed_api_call:
  "c \<noteq> Stop \<Longrightarrow> undisturbed r \<Longrightarrow> undisturbed (api_call c r)"
  by (cases c) (simp_all add: undisturbed_def api_call_def pause_def resume_def)

lemma undisturbed_foldl_api_call:
  "Stop \<notin> snd ` set xs \<Longrightarrow> undisturbed r \<Longrightarrow>
   undisturbed (foldl (\<lambda>r' (at, c). api_call c r') r xs)"
proof (induction xs arbitrary: r)
  case Nil
  then show ?case by simp
next
  case (Cons x xs)
  obtain at c where x: "x = (at, c)" by (cases x)
  with Cons.prems(1) have c: "c \<noteq> Stop" "Stop \<notin> snd ` set xs" by auto
  from Cons.IH [OF c(2) undisturbed_api_call [OF c(1) Cons.prems(2)]] show ?case by (simp add: x)
qed

lemma undisturbed_await_ms:
  assumes "undisturbed r"
  shows "undisturbed (await_ms d r)"
proof -
  let ?t = "clock r + nat d"
  have "undisturbed (r\<lparr>clock := ?t, pending := filter (\<lambda>(at, c). \<not> at \<le> ?t) (pending r)\<rparr>)"
    using assms by (auto simp: undisturbed_def)
  moreover have "Stop \<notin> snd ` set (filter (\<lambda>(at, c). at \<le> ?t) (pending r))"
    using assms by (auto simp: undisturbed_def)
  ultimately show ?thesis
    unfolding await_ms_def Let_def by (intro undisturbed_foldl_api_call)
qed

lemma steps_undisturbed:
  "steps ps r r' \<Longrightarrow> undisturbed r \<Longrightarrow> undisturbed r'"
proof (induction rule: steps.induct)
  case (wait ps r r1 d)
  then show ?case by (simp add: undisturbed_await_ms)
qed (simp_all add: undisturbed_def updateHUD_def logger_def record_event_def)

lemma randomDelay_undisturbed:
  assumes "undisturbed r"
  shows "fst (randomDelay w r) = None \<and> undisturbed (snd (randomDelay w r))"
proof -
  have "undisturbed (snd (randomDelay w r))"
    using steps_undisturbed [OF steps_randomDelay [OF steps.same] assms] .
  moreover have "fst (randomDelay w r) = None"
    using assms by (simp add: randomDelay_def draw_def undisturbed_def)
  ultimately show ?thesis by simp
qed

lemma pauseWait_undisturbed:
  assumes "pauseWait w r = Some (x, r')" "undisturbed r"
  shows "x = None \<and> undisturbed r'"
proof -
  have "\<And>res. pauseWait w r = Some res \<Longrightarrow> undisturbed r \<Longrightarrow> fst res = None \<and> undisturbed (snd res)"
  proof -
    fix res assume a: "pauseWait w r = Some res" and b: "undisturbed r"
    show "fst res = None \<and> undisturbed (snd res)"
      using b
    proof (induction rule: pauseWait.raw_induct [OF _ a])
      case (1 pw w r res)
      obtain y r1 where rd: "randomDelay w r = (y, r1)" by (cases "randomDelay w r")
      with randomDelay_undisturbed [OF "1.prems", of w] have y: "y = None" "undisturbed r1"
        by simp_all
      from "1.hyps" rd y have "res = (None, r) \<or> pw w r1 = Some res"
        by (auto split: if_splits)
      with "1.IH" [of w r1 res] y(2) "1.prems" show ?case by auto
    qed
  qed
  from this [OF assms] show ?thesis by simp
qed

lemma pressTab_undisturbed:
  assumes "undisturbed r"
  shows "undisturbed (snd (pressTab w r))"
  using steps_undisturbed [OF steps_pressTab [OF steps.same] assms] .

lemma advance_undisturbed:
  assumes "advancePastPost w cur r = Some (x, r')" "undisturbed r" "\<forall>k. \<not> closes (probe w k)"
  shows "(\<forall>msg. x = Some msg \<longrightarrow> \<not> closure_message msg) \<and> undisturbed r'"
proof -
  have "\<And>res. advancePastPost w cur r = Some res \<Longrightarrow> undisturbed r \<Longrightarrow> \<forall>k. \<not> closes (probe w k) \<Longrightarrow>
          (\<forall>msg. fst res = Some msg \<longrightarrow> \<not> closure_message msg) \<and> undisturbed (snd res)"
  proof -
    fix res assume a: "advancePastPost w cur r = Some res" and b: "undisturbed r"
      and c: "\<forall>k. \<not> closes (probe w k)"
    show "(\<forall>msg. fst res = Some msg \<longrightarrow> \<not> closure_message msg) \<and> undisturbed (snd res)"
      using b c
    proof (induction rule: advancePastPost.raw_induct [OF _ a])
      case (1 adv w cur r res)
      from "1.prems"(1) have po: "pageOpen r" by (simp add: undisturbed_def)
      obtain p r1 where pt: "pressTab w r = (p, r1)" by (cases "pressTab w r")
      with pressTab_undisturbed [OF "1.prems"(1), of w] have u1: "undisturbed r1" by simp
      from pt "1.prems"(2) have nt: "\<not> closes p" by (auto simp: pressTab_def)
      let ?r2 = "await_ms 300 r1"
      have u2: "undisturbed ?r2" by (rule undisturbed_await_ms) (rule u1)
      then have po2: "pageOpen ?r2" by (simp add: undisturbed_def)
      from "1.hyps" po pt nt po2
      have "(\<exists>msg. \<not> closure_message msg \<and> (res = (Some msg, r1) \<or> res = (Some msg, ?r2)))
            \<or> res = (None, ?r2) \<or> adv w cur ?r2 = Some res"
        by (cases p) (auto simp: Let_def split: if_splits)
      with "1.IH" [of w cur ?r2 res] u1 u2 "1.prems"(2) show ?case by auto
    qed
  qed
  from this [OF assms] show ?thesis by simp
qed

lemma after_advance_undisturbed:
  assumes "after_advance (advancePastPost w cur r) = Some (c, r')" "undisturbed r"
    "\<forall>k. \<not> closes (probe w k)"
  shows "goes_on c \<and> undisturbed r'"
proof -
  from assms(1) obtain x where a: "advancePastPost w cur r = Some (x, r')"
    by (auto simp: after_advance_def split: option.splits prod.splits)
  from advance_undisturbed [OF a assms(2,3)]
  have "\<forall>msg. x = Some msg \<longrightarrow> \<not> closure_message msg" "undisturbed r'" by simp_all
  with assms(1) a show ?thesis by (cases x) (auto simp: after_advance_def)
qed

lemma cooldown_free: "pageOpen r \<Longrightarrow> fst (cooldownWait w t r) = None"
  by (simp add: cooldownWait_def draw_def)

lemma engagePost_undisturbed:
  assumes ep: "engagePost w m t pd r = Some (c, r')" and u: "undisturbed r"
    and nt: "\<forall>k. \<not> closes (probe w k)"
  shows "goes_on c \<and> undisturbed r'"
proof -
  let ?u = "updateHUD (\<lambda>h. h\<lparr>hud_action := ''Posting Comment'', hud_postId := postId pd,
                         hud_engage := ''YES''\<rparr>) r"
  obtain commented r1 where e: "engageWithPost w pd ?u = (commented, r1)"
    by (cases "engageWithPost w pd ?u")
  have "steps ([] @ [Act (postId pd)]) r (snd (engageWithPost w pd ?u))"
    by (intro steps_engageWithPost steps.hud steps.same)
  from steps_undisturbed [OF this u] e have u1: "undisturbed r1" by simp
  show ?thesis
  proof (cases commented)
    case False
    let ?v = "updateHUD (\<lambda>h. h\<lparr>hud_action := ''Skipped (Failed)'', hud_postId := postId pd\<rparr>) r1"
    have "undisturbed ?v"
      using steps_undisturbed [OF steps.hud [OF steps.same] u1] .
    moreover from ep e False have "after_advance (advancePastPost w (postId pd) ?v) = Some (c, r')"
      by (simp add: engagePost_def)
    ultimately show ?thesis using nt by (intro after_advance_undisturbed)
  next
    case True
    obtain x r2 where cw: "cooldownWait w t (commentPosted m r1) = (x, r2)"
      by (cases "cooldownWait w t (commentPosted m r1)")
    have u1': "undisturbed (commentPosted m r1)"
      using steps_undisturbed [OF steps_commentPosted [OF steps.same] u1] .
    have "undisturbed (snd (cooldownWait w t (commentPosted m r1)))"
      using steps_undisturbed [OF steps_cooldownWait [OF steps.same] u1'] .
    with cw have u2: "undisturbed r2" by simp
    from u1' have "pageOpen (commentPosted m r1)" by (simp add: undisturbed_def)
    with cw cooldown_free [of "commentPosted m r1" w t] have "x = None" by simp
    with ep e True cw have "after_advance (advancePastPost w (postId pd) r2) = Some (c, r')"
      by (simp add: engagePost_def)
    then show ?thesis using u2 nt by (intro after_advance_undisturbed)
  qed
qed

lemma processPost_undisturbed:
  assumes pp: "processPost w m t pd r = Some (c, r')" and u: "undisturbed r"
    and nt: "\<forall>k. \<not> closes (probe w k)"
  shows "goes_on c \<and> undisturbed r'"
proof -
  let ?i = "postId pd"
  from u have po: "pageOpen r" by (simp add: undisturbed_def)
  from processPost_steps [OF pp po] obtain ps where "steps ps r r'" by blast
  from steps_undisturbed [OF this u] have u': "undisturbed r'" .
  let ?r0 = "markSeen pd (record_event (Detected ?i) r)"
  have u0: "undisturbed ?r0"
    using u by (simp add: undisturbed_def markSeen_def record_event_def)
  have "goes_on c"
  proof (cases "?i \<in> seenPostIds r")
    case True
    with pp show ?thesis by (simp add: processPost_seen)
  next
    case new: False
    show ?thesis
    proof (cases "optimizeEngagement r")
      case False
      let ?r1 = "updateHUD (\<lambda>h. h\<lparr>hud_postId := ?i, hud_action := ''Engaging'', hud_engage := ''YES''\<rparr>) ?r0"
      have "undisturbed ?r1" using steps_undisturbed [OF steps.hud [OF steps.same] u0] .
      moreover from pp have "engagePost w m t pd ?r1 = Some (c, r')"
        by (simp add: processPost_default [OF new False])
      ultimately show ?thesis using nt engagePost_undisturbed by blast
    next
      case True
      let ?pd = "pd\<lparr>outerHTML := Some (postHTML pd)\<rparr>"
      let ?r1 = "updateHUD (\<lambda>h. h\<lparr>hud_postId := ?i, hud_action := ''Analyzing...'',
                           hud_engage := ''Checking...''\<rparr>) ?r0"
      have u1: "undisturbed ?r1" using steps_undisturbed [OF steps.hud [OF steps.same] u0] .
      obtain d r2 where dc: "decide w ?pd ?r1 = (d, r2)" by (cases "decide w ?pd ?r1")
      have "steps ([] @ [Decide (postId ?pd)]) ?r1 (snd (decide w ?pd ?r1))"
        by (intro steps_decide steps.same)
      from steps_undisturbed [OF this u1] dc have u2: "undisturbed r2" by simp
      show ?thesis
      proof (cases "engage d = ''yes''")
        case False
        with pp dc show ?thesis by (simp add: processPost_optimize [OF new True])
      next
        case yes: True
        let ?r3 = "updateHUD (\<lambda>h. h\<lparr>hud_action := ''Approved'', hud_postId := ?i,
                 hud_engage := ''YES''\<rparr>) r2"
        have "undisturbed ?r3" using steps_undisturbed [OF steps.hud [OF steps.same] u2] .
        moreover from pp dc yes have "engagePost w m t ?pd ?r3 = Some (c, r')"
          by (simp add: processPost_optimize [OF new True])
        ultimately show ?thesis using nt engagePost_undisturbed by blast
      qed
    qed
  qed
  with u' show ?thesis by simp
qed

lemma tryBody_undisturbed:
  assumes tb: "tryBody w m r = Some (c, r')" and u: "undisturbed r"
    and nt: "\<forall>k. \<not> closes (probe w k)"
  shows "goes_on c \<and> undisturbed r'"
proof -
  let ?r1 = "updateHUD (\<lambda>h. h\<lparr>hud_lastKey := Some ''Tab''\<rparr>) r"
  have u1: "undisturbed ?r1" using steps_undisturbed [OF steps.hud [OF steps.same] u] .
  obtain p r2 where pt: "pressTab w ?r1 = (p, r2)" by (cases "pressTab w ?r1")
  with pressTab_undisturbed [OF u1, of w] have u2: "undisturbed r2" by simp
  from pt nt have np: "\<not> closes p" by (auto simp: pressTab_def)
  let ?r3 = "tabDelay w (timing_of r2) r2"
  have u3: "undisturbed ?r3"
    using steps_undisturbed [OF steps_tabDelay [OF steps.same] u2] .
  from u u1 u3 have f: "\<not> stopRequested r" "pageOpen ?r1" "\<not> stopRequested ?r3" "pageOpen ?r3"
    by (simp_all add: undisturbed_def)
  from tb have "(goes_on c \<and> (r' = r2 \<or> r' = ?r3))
        \<or> (\<exists>pd. processPost w m (timing_of r2) pd ?r3 = Some (c, r'))"
    unfolding tryBody_def Let_def pt using f np
    by (cases p) (auto split: if_splits)
  with u2 u3 nt processPost_undisturbed show ?thesis by blast
qed

lemma iteration_undisturbed:
  assumes "iteration w m r = Some (c, r')" "undisturbed r" "\<forall>k. \<not> closes (probe w k)"
  shows "c = Continue \<and> undisturbed r'"
proof -
  from assms(1) obtain c' where tb: "tryBody w m r = Some (c', r')"
    by (auto simp: iteration_def split: option.splits prod.splits completion.splits)
  from tryBody_undisturbed [OF tb assms(2,3)] have "goes_on c'" "undisturbed r'" by simp_all
  with assms(1) tb show ?thesis by (cases c') (auto simp: iteration_def)
qed

lemma keyboardLoop_goes_on:
  "undisturbed r \<Longrightarrow> \<forall>k. \<not> closes (probe w k) \<Longrightarrow> \<not> exited (keyboardLoop n w m r)"
proof (induction n arbitrary: r)
  case 0
  then show ?case by (simp add: keyboardLoop.simps undisturbed_def)
next
  case (Suc k)
  from Suc.prems(1) have live: "keyboardLoopActive r \<and> \<not> stopRequested r"
    by (simp add: undisturbed_def)
  show ?case
  proof (cases "pauseWait w r")
    case None
    with live show ?thesis by (simp add: keyboardLoop.simps)
  next
    case (Some res)
    obtain x r1 where res: "res = (x, r1)" by (cases res)
    from pauseWait_undisturbed [of w r x r1] Some res Suc.prems(1)
    have x: "x = None" and u1: "undisturbed r1" by simp_all
    then have live1: "keyboardLoopActive r1" "\<not> stopRequested r1" by (simp_all add: undisturbed_def)
    show ?thesis
    proof (cases "iteration w m r1")
      case None
      with live Some res x live1 show ?thesis by (simp add: keyboardLoop.simps)
    next
      case it: (Some res2)
      obtain c r2 where res2: "res2 = (c, r2)" by (cases res2)
      from iteration_undisturbed [of w m r1 c r2] it res2 u1 Suc.prems(2)
      have c: "c = Continue" and u2: "undisturbed r2" by simp_all
      from Suc.IH [OF u2 Suc.prems(2)] have "\<not> exited (keyboardLoop k w m r2)" .
      with live Some res x live1 it res2 c show ?thesis
        by (simp add: keyboardLoop.simps [of "Suc k"])
    qed
  qed
qed

text \<open>
  C7. \<open>maxActions\<close> is the value that \<open>startKeyboardAutomation\<close> takes from \<open>getThresholds()\<close>
  before the loop. For every run of the loop, of any length, from any state, on any page
  and with any lifecycle calls arriving: with another value of \<open>maxActions\<close> the loop ends or
  goes on in the same way, with the same error if any, and in a state that differs at most
  in the HUD state and the log. And from a state in which the loop is active, the stop flag
  is not set, the page is open and no stop call is to come, on a page of which no command
  throws with the message of a closed page, context or browser, the loop has not ended
  after any number of passes, whatever \<open>maxActions\<close> and the number of comments posted are.
\<close>

theorem maxActions_only_reported:
  "same_outcome (keyboardLoop n w m r) (keyboardLoop n w m' r)
   \<and> (undisturbed r \<and> (\<forall>k. \<not> closes (probe w k)) \<longrightarrow> \<not> exited (keyboardLoop n w m r))"
  using same_outcome_keyboardLoop [of r r n w m m'] keyboardLoop_goes_on [of r w n m]
  by blast

text \<open>
  The theorem with \<open>maxActions = 1\<close> on the feed that alternates between post A and post B,
  every engagement posting its comment: after three passes two comments are posted, the
  log entries report 0 and -1 remaining, and the loop is running.
\<close>


theorem maxActions_only_reported_witness:
  "undisturbed active_runner
   \<and> (\<forall>k. \<not> closes (probe alternating_world k))
   \<and> \<not> exited (keyboardLoop 3 alternating_world (Fin 1) active_runner)
   \<and> (case keyboardLoop 3 alternating_world (Fin 1) active_runner of
         Running r' \<Rightarrow> Some (commentsPosted (sessionStats r'), hud_maxComments (hudState r'),
                             map (\<lambda>(lv, msg, d). own_prop d ''remaining'') (log r'), acted (trace r'))
       | _ \<Rightarrow> None)
      = Some (2, Fin 1, [JNum (Fin 0), JNum (Fin (- 1))], [''A'', ''B''])"
  using maxActions_only_reported [THEN conjunct2, of active_runner alternating_world 3 "Fin 1"]
  by (simp add: undisturbed_def keyboardLoop.simps pauseWait.simps iteration_def tryBody_def processPost_def
        markSeen_def tabDelay_def timing_of_def randomDelay_def
        engagePost_def engageWithPost_def commentPosted_def cooldownWait_def draw_def
        active_runner_def started_runner_def new_runner_def zero_stats_def
        fixed_cooldown_def defaults_timing_def alternating_world_def await_ms_def Let_def
        record_event_def updateHUD_def logger_def after_advance_def
        advancePastPost.simps pressTab_def example_post_def)

end
